theory Spec2Isabelle
  imports Complex_Main
begin

section \<open>Data model\<close>

text \<open>
  The retrieval engine of the repository: the chunker (\<open>chunkDocuments\<close>) and the
  BM25 scorer (\<open>bm25Search\<close> with \<open>tokenize\<close> and \<open>buildIndex\<close>).

  Conventions of the embedding.
  \<^item> A JavaScript string is a \<open>string\<close>: a list of code units below 256. \<open>length\<close> is
    the source's \<open>.length\<close>.
  \<^item> The size parameters \<open>chunkSize\<close>, \<open>overlap\<close> and \<open>topK\<close> are integers
    (\<open>int\<close>), negative values included; offsets computed from them are \<open>int\<close> as well.
  \<^item> Scores are JavaScript numbers; they are modelled as mathematical reals, so rounding
    of the double arithmetic is not part of the model.
  \<^item> A call that does not return is the value \<open>None\<close>.
  \<^item> \<open>bm25Search\<close> is a function of the values of its arguments; for the claim on
    mutation it is given a second time on an explicit store of arrays and objects
    (\<open>bm25Search_heap\<close>), and the two are proved to agree.
  \<^item> The fields \<open>id\<close> and \<open>text\<close> of the source are \<open>id_c\<close> and \<open>text_c\<close> on a
    chunk and \<open>text_d\<close> on a document.
\<close>

record chunk =
  id_c :: nat
  text_c :: string
  docIndex :: nat
  docName :: string
  startChar :: int

record scored_chunk = chunk +
  score :: real
  termMatches :: "string list"

record document_input =
  name :: string
  text_d :: string

section \<open>String primitives of the host language\<close>

text \<open>White space as \<open>\s\<close> and \<open>trim\<close> see it: TAB, LF, VT, FF, CR, space, NBSP.\<close>

definition is_space :: "char \<Rightarrow> bool" where
  "is_space c = (c \<in> set [CHR 0x09, CHR 0x0A, CHR 0x0B, CHR 0x0C, CHR 0x0D, CHR 0x20, CHR 0xA0])"

definition trim :: "string \<Rightarrow> string" where
  "trim s = rev (dropWhile is_space (rev (dropWhile is_space s)))"

text \<open>
  \<open>s.slice(start, end)\<close> on a string or an array: a negative argument counts from the
  end, both are clamped to the length, an empty range gives the empty sequence.
\<close>

definition slice_bound :: "nat \<Rightarrow> int \<Rightarrow> nat" where
  "slice_bound len k = (if k < 0 then nat (max (int len + k) 0) else min (nat k) len)"

definition js_slice :: "'a list \<Rightarrow> int \<Rightarrow> int \<Rightarrow> 'a list" where
  "js_slice xs start end =
     (let from = slice_bound (length xs) start;
          to = slice_bound (length xs) end
      in take (to - from) (drop from xs))"

text \<open>\<open>s.split(/\s+/)\<close>: the pieces between maximal runs of white space.\<close>

function split_ws :: "string \<Rightarrow> string \<Rightarrow> string list" where
  "split_ws cur [] = [cur]"
| "split_ws cur (c # cs) =
     (if is_space c then cur # split_ws [] (dropWhile is_space cs)
      else split_ws (cur @ [c]) cs)"
  by pat_completeness auto
termination
  by (relation "measure (\<lambda>(cur, s). length s)")
     (auto simp: less_Suc_eq_le length_dropWhile_le)

text \<open>\<open>s.split(/\n{2,}/)\<close>: the pieces between maximal runs of two or more line feeds.\<close>

function split_paragraphs :: "string \<Rightarrow> string \<Rightarrow> string list" where
  "split_paragraphs cur [] = [cur]"
| "split_paragraphs cur [c] = [cur @ [c]]"
| "split_paragraphs cur (c # d # cs) =
     (if c = CHR 0x0A \<and> d = CHR 0x0A
      then cur # split_paragraphs [] (dropWhile (\<lambda>x. x = CHR 0x0A) cs)
      else split_paragraphs (cur @ [c]) (d # cs))"
  by pat_completeness auto
termination
  by (relation "measure (\<lambda>(cur, s). length s)")
     (auto simp: less_Suc_eq_le intro: le_trans [OF length_dropWhile_le])

text \<open>\<open>[...new Set(xs)]\<close>: the distinct elements in order of first occurrence.\<close>

fun distinct_first :: "'a list \<Rightarrow> 'a list" where
  "distinct_first [] = []"
| "distinct_first (x # xs) = x # distinct_first (removeAll x xs)"

section \<open>Tokenizer\<close>

definition lower_char :: "char \<Rightarrow> char" where
  "lower_char c =
     (let n = (of_char c :: nat)
      in if (65 \<le> n \<and> n \<le> 90) \<or> (192 \<le> n \<and> n \<le> 222 \<and> n \<noteq> 215)
         then char_of (n + 32) else c)"

definition toLowerCase :: "string \<Rightarrow> string" where
  "toLowerCase s = map lower_char s"

definition is_lower_alnum :: "char \<Rightarrow> bool" where
  "is_lower_alnum c =
     (let n = (of_char c :: nat) in (97 \<le> n \<and> n \<le> 122) \<or> (48 \<le> n \<and> n \<le> 57))"

definition tokenize :: "string \<Rightarrow> string list" where
  "tokenize txt =
     filter (\<lambda>t. length t > 2)
       (split_ws []
         (map (\<lambda>c. if is_lower_alnum c \<or> is_space c then c else CHR 0x20)
           (toLowerCase txt)))"

section \<open>Index construction\<close>

text \<open>\<open>m.get(k) ?? 0\<close> on a \<open>Map<string, number>\<close>.\<close>

definition get0 :: "(string \<rightharpoonup> nat) \<Rightarrow> string \<Rightarrow> nat" where
  "get0 m k = (case m k of None \<Rightarrow> 0 | Some n \<Rightarrow> n)"

text \<open>
  The body of the inner \<open>tokens.forEach\<close>: the state is the term-frequency map of the
  current chunk, the document-frequency map and the set \<open>seenTerms\<close>.
\<close>

definition add_token ::
  "string \<Rightarrow> (string \<rightharpoonup> nat) \<times> (string \<rightharpoonup> nat) \<times> string set
     \<Rightarrow> (string \<rightharpoonup> nat) \<times> (string \<rightharpoonup> nat) \<times> string set" where
  "add_token token st =
     (case st of (tfi, df, seenTerms) \<Rightarrow>
        let tfi' = tfi(token \<mapsto> get0 tfi token + 1)
        in if token \<notin> seenTerms
           then (tfi', df(token \<mapsto> get0 df token + 1), insert token seenTerms)
           else (tfi', df, seenTerms))"

record index_state =
  tf :: "(string \<rightharpoonup> nat) list"
  df :: "string \<rightharpoonup> nat"
  docLengths :: "nat list"
  totalLength :: nat

text \<open>The body of \<open>chunks.forEach((chunk, i) => ...)\<close>.\<close>

definition index_chunk :: "nat \<times> chunk \<Rightarrow> index_state \<Rightarrow> index_state" where
  "index_chunk ic st =
     (case ic of (i, chunk) \<Rightarrow>
        let tokens = tokenize (text_c chunk);
            (tfi, df', seenTerms) = fold add_token tokens (tf st ! i, df st, {})
        in \<lparr> tf = (tf st)[i := tfi],
             df = df',
             docLengths = docLengths st @ [length tokens],
             totalLength = totalLength st + length tokens \<rparr>)"

record index =
  ix_tf :: "(string \<rightharpoonup> nat) list"
  ix_df :: "string \<rightharpoonup> nat"
  ix_docLengths :: "nat list"
  avgdl :: real
  N :: nat

definition buildIndex :: "chunk list \<Rightarrow> index" where
  "buildIndex chunks =
     (let st = fold index_chunk (enumerate 0 chunks)
                 \<lparr> tf = map (\<lambda>_. Map.empty) chunks, df = Map.empty,
                   docLengths = [], totalLength = 0 \<rparr>
      in \<lparr> ix_tf = tf st, ix_df = df st, ix_docLengths = docLengths st,
           avgdl = real (totalLength st) / real (length chunks),
           N = length chunks \<rparr>)"

section \<open>BM25 scoring\<close>

definition k1 :: real where "k1 = 1.5"

definition b :: real where "b = 0.75"

text \<open>
  The two constants of the body of \<open>queryTerms.forEach\<close>: \<open>idf\<close> from the number of
  chunks and the document frequency of the term, \<open>tfNorm\<close> from the term frequency, the
  token count of the chunk and the average token count.
\<close>

definition idf :: "nat \<Rightarrow> nat \<Rightarrow> real" where
  "idf n termDf = ln ((real n - real termDf + 0.5) / (real termDf + 0.5) + 1)"

definition tfNorm :: "nat \<Rightarrow> nat \<Rightarrow> real \<Rightarrow> real" where
  "tfNorm termTf docLength av =
     (real termTf * (k1 + 1)) / (real termTf + k1 * (1 - b + b * (real docLength / av)))"

text \<open>
  The body of \<open>queryTerms.forEach\<close> for chunk \<open>i\<close>: the state is the running score and
  the list \<open>matchedTerms\<close>.
\<close>

definition score_term :: "index \<Rightarrow> nat \<Rightarrow> string \<Rightarrow> real \<times> string list \<Rightarrow> real \<times> string list" where
  "score_term ix i term st =
     (case st of (sc, matchedTerms) \<Rightarrow>
        let termTf = get0 (ix_tf ix ! i) term;
            termDf = get0 (ix_df ix) term
        in if termDf = 0 then (sc, matchedTerms)
           else (sc + idf (N ix) termDf * tfNorm termTf (ix_docLengths ix ! i) (avgdl ix),
                 if termTf > 0 then matchedTerms @ [term] else matchedTerms))"

definition score_chunk :: "index \<Rightarrow> string list \<Rightarrow> nat \<times> chunk \<Rightarrow> scored_chunk" where
  "score_chunk ix queryTerms ic =
     (case ic of (i, chunk) \<Rightarrow>
        let (sc, matchedTerms) = fold (score_term ix i) queryTerms (0, [])
        in chunk.extend chunk (scored_chunk.fields sc matchedTerms))"

text \<open>The array \<open>scored\<close>: one entry per chunk, before filtering.\<close>

definition scored :: "chunk list \<Rightarrow> string \<Rightarrow> scored_chunk list" where
  "scored chunks query =
     (let ix = buildIndex chunks;
          queryTerms = distinct_first (tokenize query)
      in map (score_chunk ix queryTerms) (enumerate 0 chunks))"

text \<open>
  \<open>sort((a, b) => b.score - a.score)\<close>: the host's sort is stable, so it is a stable
  insertion sort on the negated score.
\<close>

definition sort_desc :: "scored_chunk list \<Rightarrow> scored_chunk list" where
  "sort_desc cs = sort_key (\<lambda>c. - score c) cs"

definition bm25Search :: "chunk list \<Rightarrow> string \<Rightarrow> int \<Rightarrow> scored_chunk list" where
  "bm25Search chunks query topK =
     (if length chunks = 0 then []
      else js_slice (sort_desc (filter (\<lambda>c. score c > 0) (scored chunks query))) 0 topK)"

section \<open>Chunker\<close>

text \<open>
  The state of one \<open>docs.forEach\<close> callback: the output array \<open>chunks\<close> and the counter
  \<open>globalId\<close> of the enclosing call, and the locals \<open>currentChunk\<close>, \<open>currentStart\<close>,
  \<open>charPos\<close>.
\<close>

record chunker_state =
  chunks :: "chunk list"
  globalId :: nat
  currentChunk :: string
  currentStart :: int
  charPos :: int

text \<open>\<open>chunks.push({ id: globalId++, text, docIndex, docName: doc.name, startChar })\<close>.\<close>

definition push_chunk :: "nat \<Rightarrow> string \<Rightarrow> string \<Rightarrow> int \<Rightarrow> chunker_state \<Rightarrow> chunker_state" where
  "push_chunk di dn txt start st =
     st\<lparr> chunks := chunks st @
            [\<lparr> id_c = globalId st, text_c = txt, docIndex = di, docName = dn, startChar = start \<rparr>],
         globalId := globalId st + 1 \<rparr>"

text \<open>
  The character fallback \<open>while (pos < para.length)\<close>. The loop has no bound of its own:
  it is a partial function, and \<open>None\<close> is the loop that never ends.
\<close>

partial_function (option) split_loop ::
  "int \<Rightarrow> int \<Rightarrow> nat \<Rightarrow> string \<Rightarrow> string \<Rightarrow> int \<Rightarrow> int \<Rightarrow> chunker_state \<Rightarrow> chunker_state option" where
  "split_loop chunkSize overlap di dn para cp pos st =
     (if pos < int (length para)
      then split_loop chunkSize overlap di dn para cp (pos + (chunkSize - overlap))
             (push_chunk di dn (js_slice para pos (pos + chunkSize)) (cp + pos) st)
      else Some st)"

declare split_loop.simps [code]

text \<open>The body of \<open>for (const para of paragraphs)\<close>.\<close>

definition para_step ::
  "int \<Rightarrow> int \<Rightarrow> nat \<Rightarrow> string \<Rightarrow> string \<Rightarrow> chunker_state \<Rightarrow> chunker_state option" where
  "para_step chunkSize overlap di dn para st =
     (let candidateLength =
            (if currentChunk st \<noteq> []
             then int (length (currentChunk st)) + 2 + int (length para)
             else int (length para))
      in map_option (\<lambda>s. s\<lparr> charPos := charPos s + (int (length para) + 2) \<rparr>)
           (if candidateLength \<le> chunkSize
            then
              (if currentChunk st \<noteq> []
               then Some (st\<lparr> currentChunk := currentChunk st @ [CHR 0x0A, CHR 0x0A] @ para \<rparr>)
               else Some (st\<lparr> currentStart := charPos st, currentChunk := para \<rparr>))
            else
              (let st1 = (if currentChunk st \<noteq> []
                          then push_chunk di dn (currentChunk st) (currentStart st) st
                          else st)
               in if int (length para) > chunkSize
                  then map_option
                         (\<lambda>s. s\<lparr> currentChunk := [],
                                 currentStart := charPos st + int (length para) \<rparr>)
                         (split_loop chunkSize overlap di dn para (charPos st) 0 st1)
                  else Some (st1\<lparr> currentStart := charPos st, currentChunk := para \<rparr>))))"

fun para_loop ::
  "int \<Rightarrow> int \<Rightarrow> nat \<Rightarrow> string \<Rightarrow> string list \<Rightarrow> chunker_state \<Rightarrow> chunker_state option" where
  "para_loop chunkSize overlap di dn [] st = Some st"
| "para_loop chunkSize overlap di dn (para # paras) st =
     (case para_step chunkSize overlap di dn para st of
        None \<Rightarrow> None
      | Some st' \<Rightarrow> para_loop chunkSize overlap di dn paras st')"

text \<open>\<open>text.split(/\n{2,}/).map((p) => p.trim()).filter(Boolean)\<close>.\<close>

definition paragraphs_of :: "string \<Rightarrow> string list" where
  "paragraphs_of txt = filter (\<lambda>p. p \<noteq> []) (map trim (split_paragraphs [] txt))"

text \<open>
  The callback of \<open>docs.forEach((doc, docIndex) => ...)\<close>, from the output array and
  counter before the document to those after it.
\<close>

definition chunk_doc ::
  "int \<Rightarrow> int \<Rightarrow> nat \<times> document_input \<Rightarrow> chunk list \<times> nat \<Rightarrow> (chunk list \<times> nat) option" where
  "chunk_doc chunkSize overlap idoc out =
     (case idoc of (di, doc) \<Rightarrow>
        let txt = trim (text_d doc)
        in if txt = [] then Some out
           else
             map_option
               (\<lambda>st. let st' = (if currentChunk st \<noteq> []
                                 then push_chunk di (name doc) (currentChunk st) (currentStart st) st
                                 else st)
                      in (chunks st', globalId st'))
               (para_loop chunkSize overlap di (name doc) (paragraphs_of txt)
                  \<lparr> chunks = fst out, globalId = snd out,
                    currentChunk = [], currentStart = 0, charPos = 0 \<rparr>))"

fun docs_loop ::
  "int \<Rightarrow> int \<Rightarrow> (nat \<times> document_input) list \<Rightarrow> chunk list \<times> nat \<Rightarrow> (chunk list \<times> nat) option" where
  "docs_loop chunkSize overlap [] out = Some out"
| "docs_loop chunkSize overlap (idoc # rest) out =
     (case chunk_doc chunkSize overlap idoc out of
        None \<Rightarrow> None
      | Some out' \<Rightarrow> docs_loop chunkSize overlap rest out')"

definition chunkDocuments :: "document_input list \<Rightarrow> int \<Rightarrow> int \<Rightarrow> chunk list option" where
  "chunkDocuments docs chunkSize overlap =
     map_option fst (docs_loop chunkSize overlap (enumerate 0 docs) ([], 0))"

section \<open>The scoring formula as the specification states it\<close>

text \<open>
  The quantities of the specification, defined from the chunk texts alone and not from
  the index: \<open>df(t)\<close> is the number of chunks containing \<open>t\<close>, \<open>freq(t, i)\<close> the number
  of occurrences of \<open>t\<close> among the tokens of chunk \<open>i\<close>, \<open>len(i)\<close> its token count and
  \<open>avgdl\<close> the mean token count. \<open>score_spec\<close> is the sum over the set of the query
  terms of positive document frequency: a term that the query repeats is one term of the
  sum.
\<close>

definition df_spec :: "chunk list \<Rightarrow> string \<Rightarrow> nat" where
  "df_spec cs t = length (filter (\<lambda>c. t \<in> set (tokenize (text_c c))) cs)"

definition freq_spec :: "chunk list \<Rightarrow> string \<Rightarrow> nat \<Rightarrow> nat" where
  "freq_spec cs t i = count_list (tokenize (text_c (cs ! i))) t"

definition len_spec :: "chunk list \<Rightarrow> nat \<Rightarrow> nat" where
  "len_spec cs i = length (tokenize (text_c (cs ! i)))"

definition avgdl_spec :: "chunk list \<Rightarrow> real" where
  "avgdl_spec cs = real (\<Sum>c\<leftarrow>cs. length (tokenize (text_c c))) / real (length cs)"

definition idf_spec :: "chunk list \<Rightarrow> string \<Rightarrow> real" where
  "idf_spec cs t =
     ln ((real (length cs) - real (df_spec cs t) + 0.5) / (real (df_spec cs t) + 0.5) + 1)"

definition tf_norm_spec :: "chunk list \<Rightarrow> string \<Rightarrow> nat \<Rightarrow> real" where
  "tf_norm_spec cs t i =
     (real (freq_spec cs t i) * (1.5 + 1)) /
     (real (freq_spec cs t i) + 1.5 * (1 - 0.75 + 0.75 * real (len_spec cs i) / avgdl_spec cs))"

definition score_spec :: "chunk list \<Rightarrow> string \<Rightarrow> nat \<Rightarrow> real" where
  "score_spec cs query i =
     (\<Sum>t\<in>set (filter (\<lambda>t. 0 < df_spec cs t) (tokenize query)).
        idf_spec cs t * tf_norm_spec cs t i)"

text \<open>
  For the proofs: the same products added in the order in which the code visits the
  query terms.
\<close>

definition score_terms :: "chunk list \<Rightarrow> string \<Rightarrow> nat \<Rightarrow> real" where
  "score_terms cs query i =
     (\<Sum>t\<leftarrow>filter (\<lambda>t. 0 < df_spec cs t) (distinct_first (tokenize query)).
        idf_spec cs t * tf_norm_spec cs t i)"

section \<open>The windows of the fallback loop\<close>

text \<open>
  For the proofs: the positions at which the fallback loop opens a window, for a
  positive step; and one iteration of the loop body as a function of the position.
\<close>

function window_starts :: "int \<Rightarrow> int \<Rightarrow> int \<Rightarrow> int list" where
  "window_starts step len pos =
     (if 0 < step \<and> pos < len then pos # window_starts step len (pos + step) else [])"
  by pat_completeness auto
termination
  by (relation "measure (\<lambda>(step, len, pos). nat (len - pos))") auto

declare window_starts.simps [simp del]

definition push_window :: "int \<Rightarrow> nat \<Rightarrow> string \<Rightarrow> string \<Rightarrow> int \<Rightarrow> int \<Rightarrow> chunker_state \<Rightarrow> chunker_state" where
  "push_window chunkSize di dn para cp pos st =
     push_chunk di dn (js_slice para pos (pos + chunkSize)) (cp + pos) st"

definition window_chunk :: "int \<Rightarrow> nat \<Rightarrow> string \<Rightarrow> string \<Rightarrow> int \<Rightarrow> nat \<times> int \<Rightarrow> chunk" where
  "window_chunk chunkSize di dn para cp ip =
     \<lparr> id_c = fst ip, text_c = js_slice para (snd ip) (snd ip + chunkSize),
       docIndex = di, docName = dn, startChar = cp + snd ip \<rparr>"

section \<open>Invariants of the paragraph loop\<close>

text \<open>The separator that the chunker puts between paragraphs.\<close>

definition sep :: string where
  "sep = [CHR 0x0A, CHR 0x0A]"

text \<open>\<open>if (currentChunk) chunks.push(...)\<close>: the chunks that a flush of the buffer adds.\<close>

definition flushed :: "nat \<Rightarrow> string \<Rightarrow> chunker_state \<Rightarrow> chunk list" where
  "flushed di dn st =
     (if currentChunk st \<noteq> []
      then [\<lparr> id_c = globalId st, text_c = currentChunk st, docIndex = di, docName = dn,
               startChar = currentStart st \<rparr>]
      else [])"

text \<open>
  \<open>inside t s Q\<close>: the text \<open>t\<close> stands in \<open>Q\<close> at offset \<open>s\<close>, before the final
  separator of \<open>Q\<close>; \<open>at_end t s Q\<close>: it is followed by that separator only.
\<close>

definition inside :: "string \<Rightarrow> int \<Rightarrow> string \<Rightarrow> bool" where
  "inside t s Q \<longleftrightarrow> (\<exists>pre post. Q = pre @ t @ post @ sep \<and> int (length pre) = s)"

definition at_end :: "string \<Rightarrow> int \<Rightarrow> string \<Rightarrow> bool" where
  "at_end t s Q \<longleftrightarrow> (\<exists>pre. Q = pre @ t @ sep \<and> int (length pre) = s)"

text \<open>The offset from which the next chunk of the document will start, at the earliest.\<close>

definition front :: "chunker_state \<Rightarrow> int" where
  "front st = (if currentChunk st \<noteq> [] then currentStart st else charPos st)"

text \<open>
  The invariant of the paragraph loop on offsets, for \<open>Q\<close> the paragraphs read so far,
  each followed by the separator.
\<close>

definition inv_pos :: "string \<Rightarrow> chunker_state \<Rightarrow> bool" where
  "inv_pos Q st \<longleftrightarrow>
     charPos st = int (length Q) \<and>
     (\<forall>c\<in>set (chunks st). inside (text_c c) (startChar c) Q \<and> startChar c \<le> front st) \<and>
     sorted (map startChar (chunks st)) \<and>
     (currentChunk st \<noteq> [] \<longrightarrow> at_end (currentChunk st) (currentStart st) Q)"

text \<open>The invariant on ids and document fields, for a document that starts at id \<open>g\<close>.\<close>

definition inv_ids :: "nat \<Rightarrow> nat \<Rightarrow> string \<Rightarrow> chunker_state \<Rightarrow> bool" where
  "inv_ids g di dn st \<longleftrightarrow>
     globalId st = g + length (chunks st) \<and>
     map id_c (chunks st) = [g..<g + length (chunks st)] \<and>
     (\<forall>c\<in>set (chunks st). docIndex c = di \<and> docName c = dn)"

text \<open>The invariant on lengths.\<close>

definition inv_size :: "int \<Rightarrow> chunker_state \<Rightarrow> bool" where
  "inv_size chunkSize st \<longleftrightarrow>
     (\<forall>c\<in>set (chunks st). int (length (text_c c)) \<le> chunkSize) \<and>
     (currentChunk st \<noteq> [] \<longrightarrow> int (length (currentChunk st)) \<le> chunkSize)"

text \<open>
  \<open>covered st j\<close>: offset \<open>j\<close> lies in an emitted chunk or in the buffer. The coverage
  invariant: every offset of \<open>Q\<close> is covered or holds a line feed.
\<close>

definition covers :: "chunk \<Rightarrow> nat \<Rightarrow> bool" where
  "covers c j \<longleftrightarrow> startChar c \<le> int j \<and> int j < startChar c + int (length (text_c c))"

definition covered :: "chunker_state \<Rightarrow> nat \<Rightarrow> bool" where
  "covered st j \<longleftrightarrow>
     (\<exists>c\<in>set (chunks st). covers c j) \<or>
     (currentChunk st \<noteq> [] \<and> currentStart st \<le> int j)"

definition inv_cov :: "string \<Rightarrow> chunker_state \<Rightarrow> bool" where
  "inv_cov Q st \<longleftrightarrow> (\<forall>j<length Q. Q ! j = CHR 0x0A \<or> covered st j)"

text \<open>The paragraphs read so far, each followed by the separator.\<close>

definition joined :: "string list \<Rightarrow> string" where
  "joined ps = concat (map (\<lambda>p. p @ sep) ps)"

section \<open>The text of a document and its chunks\<close>

text \<open>
  The text of a document as the chunker sees it: its paragraphs, trimmed, joined by the
  separator (\<open>paragraphs.join("\n\n")\<close>). \<open>startChar\<close> is an offset into this text.
\<close>

fun join_paragraphs :: "string list \<Rightarrow> string" where
  "join_paragraphs [] = []"
| "join_paragraphs [p] = p"
| "join_paragraphs (p # q # ps) = p @ sep @ join_paragraphs (q # ps)"

definition doc_text :: "document_input \<Rightarrow> string" where
  "doc_text doc = join_paragraphs (paragraphs_of (trim (text_d doc)))"

text \<open>\<open>occurs_at t s P\<close>: the text \<open>t\<close> is the part of \<open>P\<close> that starts at offset \<open>s\<close>.\<close>

definition occurs_at :: "string \<Rightarrow> int \<Rightarrow> string \<Rightarrow> bool" where
  "occurs_at t s P \<longleftrightarrow>
     0 \<le> s \<and> nat s + length t \<le> length P \<and> take (length t) (drop (nat s) P) = t"

text \<open>What holds of the chunk list of document \<open>i\<close>.\<close>

definition part_ok :: "int \<Rightarrow> int \<Rightarrow> nat \<Rightarrow> document_input \<Rightarrow> chunk list \<Rightarrow> bool" where
  "part_ok chunkSize overlap i doc part \<longleftrightarrow>
     (\<forall>c\<in>set part. docIndex c = i \<and> docName c = name doc \<and>
          occurs_at (text_c c) (startChar c) (doc_text doc)) \<and>
     sorted (map startChar part) \<and>
     (0 \<le> chunkSize \<longrightarrow> (\<forall>c\<in>set part. int (length (text_c c)) \<le> chunkSize)) \<and>
     (0 \<le> overlap \<longrightarrow>
        (\<forall>j<length (doc_text doc). doc_text doc ! j = CHR 0x0A \<or> (\<exists>c\<in>set part. covers c j)))"

section \<open>The store of the search\<close>

text \<open>
  The store of the search, for the claim on mutation. Arrays hold references; a chunk
  and a scored chunk are objects of their own. An address is an index into the store,
  and a new object goes to the end of it. The maps and counters of the index are local
  values of one call and are not part of the store.
\<close>

type_synonym addr = nat

datatype obj = ChunkObj chunk | ScoredObj scored_chunk | ArrayObj "addr list"

type_synonym heap = "obj list"

definition get_array :: "heap \<Rightarrow> addr \<Rightarrow> addr list option" where
  "get_array h a =
     (if a < length h then (case h ! a of ArrayObj rs \<Rightarrow> Some rs | _ \<Rightarrow> None) else None)"

definition get_chunk :: "heap \<Rightarrow> addr \<Rightarrow> chunk option" where
  "get_chunk h a =
     (if a < length h then (case h ! a of ChunkObj c \<Rightarrow> Some c | _ \<Rightarrow> None) else None)"

definition get_scored :: "heap \<Rightarrow> addr \<Rightarrow> scored_chunk option" where
  "get_scored h a =
     (if a < length h then (case h ! a of ScoredObj s \<Rightarrow> Some s | _ \<Rightarrow> None) else None)"

text \<open>The chunks that an array of chunk references holds, read through the store.\<close>

definition read_chunks :: "heap \<Rightarrow> addr \<Rightarrow> chunk list option" where
  "read_chunks h a =
     (case get_array h a of None \<Rightarrow> None | Some rs \<Rightarrow> those (map (get_chunk h) rs))"

definition new_objects :: "obj list \<Rightarrow> heap \<Rightarrow> heap \<times> addr list" where
  "new_objects vs h = (h @ vs, [length h..<length h + length vs])"

definition new_array :: "addr list \<Rightarrow> heap \<Rightarrow> heap \<times> addr" where
  "new_array rs h = (h @ [ArrayObj rs], length h)"

text \<open>\<open>c.score\<close> of the object behind a reference.\<close>

definition score_at :: "heap \<Rightarrow> addr \<Rightarrow> real" where
  "score_at h r = (case get_scored h r of Some s \<Rightarrow> score s | None \<Rightarrow> 0)"

text \<open>\<open>filter\<close> and \<open>slice\<close> make a new array; \<open>sort\<close> writes into the array it is given.\<close>

definition array_filter :: "(heap \<Rightarrow> addr \<Rightarrow> bool) \<Rightarrow> addr \<Rightarrow> heap \<Rightarrow> (heap \<times> addr) option" where
  "array_filter P a h =
     (case get_array h a of None \<Rightarrow> None
      | Some rs \<Rightarrow> Some (new_array (filter (P h) rs) h))"

definition array_sort :: "(heap \<Rightarrow> addr \<Rightarrow> real) \<Rightarrow> addr \<Rightarrow> heap \<Rightarrow> (heap \<times> addr) option" where
  "array_sort key a h =
     (case get_array h a of None \<Rightarrow> None
      | Some rs \<Rightarrow> Some (h[a := ArrayObj (sort_key (key h) rs)], a))"

definition array_slice :: "int \<Rightarrow> int \<Rightarrow> addr \<Rightarrow> heap \<Rightarrow> (heap \<times> addr) option" where
  "array_slice s e a h =
     (case get_array h a of None \<Rightarrow> None
      | Some rs \<Rightarrow> Some (new_array (js_slice rs s e) h))"

text \<open>
  \<open>bm25Search\<close> on the store: \<open>chunksA\<close> is the address of the input array, the result
  is the store after the call and the address of the returned array. \<open>map\<close> makes one
  new object per chunk and a new array of them.
\<close>

definition bm25Search_heap :: "heap \<Rightarrow> addr \<Rightarrow> string \<Rightarrow> int \<Rightarrow> (heap \<times> addr) option" where
  "bm25Search_heap h chunksA query topK =
     (case read_chunks h chunksA of None \<Rightarrow> None
      | Some cs \<Rightarrow>
          if length cs = 0 then Some (new_array [] h)
          else
            (case new_objects (map ScoredObj (scored cs query)) h of (h1, refs) \<Rightarrow>
             case new_array refs h1 of (h2, scoredA) \<Rightarrow>
             case array_filter (\<lambda>h r. score_at h r > 0) scoredA h2 of None \<Rightarrow> None
             | Some (h3, filteredA) \<Rightarrow>
             case array_sort (\<lambda>h r. - score_at h r) filteredA h3 of None \<Rightarrow> None
             | Some (h4, sortedA) \<Rightarrow> array_slice 0 topK sortedA h4))"

section \<open>Example inputs\<close>

text \<open>Two one-paragraph chunks that share the term \<open>food\<close>.\<close>

definition ex_chunks :: "chunk list" where
  "ex_chunks =
     [\<lparr> id_c = 0, text_c = ''dog food recipes'', docIndex = 0, docName = ''A'', startChar = 0 \<rparr>,
      \<lparr> id_c = 1, text_c = ''cat food recipes'', docIndex = 1, docName = ''B'', startChar = 0 \<rparr>]"

text \<open>
  Two chunks that hold the term \<open>food\<close> once each: a long one first, a short one second.
  The short one has the higher score.
\<close>

definition ex_ranked :: "chunk list" where
  "ex_ranked =
     [\<lparr> id_c = 0, text_c = ''food with many more words'', docIndex = 0, docName = ''A'',
        startChar = 0 \<rparr>,
      \<lparr> id_c = 1, text_c = ''food'', docIndex = 1, docName = ''B'', startChar = 0 \<rparr>]"

text \<open>A document of one ten-character paragraph.\<close>

definition ex_doc :: document_input where
  "ex_doc = \<lparr> name = ''X'', text_d = ''abcdefghij'' \<rparr>"

text \<open>
  Three documents: a ten-character paragraph, a blank document, and a two-character
  paragraph followed by an eight-character one.
\<close>

definition ex_docs :: "document_input list" where
  "ex_docs =
     [\<lparr> name = ''A'', text_d = ''abcdefghij'' \<rparr>,
      \<lparr> name = ''B'', text_d = ''  '' \<rparr>,
      \<lparr> name = ''C'', text_d = ''xy'' @ [CHR 0x0A, CHR 0x0A] @ ''zw123456'' \<rparr>]"

text \<open>What the chunker returns for them with \<open>chunkSize = 4\<close> and \<open>overlap = 1\<close>.\<close>

definition ex_out :: "chunk list" where
  "ex_out =
     [\<lparr> id_c = 0, text_c = ''abcd'', docIndex = 0, docName = ''A'', startChar = 0 \<rparr>,
      \<lparr> id_c = 1, text_c = ''defg'', docIndex = 0, docName = ''A'', startChar = 3 \<rparr>,
      \<lparr> id_c = 2, text_c = ''ghij'', docIndex = 0, docName = ''A'', startChar = 6 \<rparr>,
      \<lparr> id_c = 3, text_c = ''j'', docIndex = 0, docName = ''A'', startChar = 9 \<rparr>,
      \<lparr> id_c = 4, text_c = ''xy'', docIndex = 2, docName = ''C'', startChar = 0 \<rparr>,
      \<lparr> id_c = 5, text_c = ''zw12'', docIndex = 2, docName = ''C'', startChar = 4 \<rparr>,
      \<lparr> id_c = 6, text_c = ''2345'', docIndex = 2, docName = ''C'', startChar = 7 \<rparr>,
      \<lparr> id_c = 7, text_c = ''56'', docIndex = 2, docName = ''C'', startChar = 10 \<rparr>]"

text \<open>A store with the two example chunks and the array of them at address 2.\<close>

definition ex_heap :: heap where
  "ex_heap = [ChunkObj (ex_chunks ! 0), ChunkObj (ex_chunks ! 1), ArrayObj [0, 1]]"

section \<open>Index construction: what the maps hold\<close>

lemma get0_upd: "get0 (m(k \<mapsto> v)) t = (if t = k then v else get0 m t)"
  by (simp add: get0_def)

lemma add_token_eval:
  "add_token a (tfi, dfm, seen) =
     (if a \<notin> seen
      then (tfi(a \<mapsto> get0 tfi a + 1), dfm(a \<mapsto> get0 dfm a + 1), insert a seen)
      else (tfi(a \<mapsto> get0 tfi a + 1), dfm, seen))"
  by (simp add: add_token_def Let_def)

lemma fold_add_token:
  "fold add_token ts (tfi, dfm, seen) = (tfi', dfm', seen') \<Longrightarrow>
     get0 tfi' t = get0 tfi t + count_list ts t \<and>
     get0 dfm' t = get0 dfm t + (if t \<in> set ts \<and> t \<notin> seen then 1 else 0) \<and>
     seen' = seen \<union> set ts"
proof (induction ts arbitrary: tfi dfm seen)
  case Nil
  then show ?case by simp
next
  case (Cons a ts)
  show ?case
  proof (cases "a \<in> seen")
    case True
    with Cons.prems have
      "fold add_token ts (tfi(a \<mapsto> get0 tfi a + 1), dfm, seen) = (tfi', dfm', seen')"
      by (simp add: add_token_eval)
    from Cons.IH [OF this] True show ?thesis
      by (auto simp: get0_def)
  next
    case False
    with Cons.prems have
      "fold add_token ts (tfi(a \<mapsto> get0 tfi a + 1), dfm(a \<mapsto> get0 dfm a + 1), insert a seen)
         = (tfi', dfm', seen')"
      by (simp add: add_token_eval)
    from Cons.IH [OF this] False show ?thesis
      by (auto simp: get0_def)
  qed
qed

lemma index_chunk_step:
  assumes "i < length (tf st)"
  shows "length (tf (index_chunk (i, c) st)) = length (tf st)"
    and "j < length (tf st) \<Longrightarrow> get0 (tf (index_chunk (i, c) st) ! j) t =
           (if j = i then get0 (tf st ! i) t + count_list (tokenize (text_c c)) t
            else get0 (tf st ! j) t)"
    and "get0 (df (index_chunk (i, c) st)) t =
           get0 (df st) t + (if t \<in> set (tokenize (text_c c)) then 1 else 0)"
    and "docLengths (index_chunk (i, c) st) = docLengths st @ [length (tokenize (text_c c))]"
    and "totalLength (index_chunk (i, c) st) = totalLength st + length (tokenize (text_c c))"
proof -
  obtain tfi' dfm' seen' where
    f: "fold add_token (tokenize (text_c c)) (tf st ! i, df st, {}) = (tfi', dfm', seen')"
    by (cases "fold add_token (tokenize (text_c c)) (tf st ! i, df st, {})") auto
  have ic: "index_chunk (i, c) st =
      \<lparr> tf = (tf st)[i := tfi'], df = dfm',
        docLengths = docLengths st @ [length (tokenize (text_c c))],
        totalLength = totalLength st + length (tokenize (text_c c)) \<rparr>"
    by (simp add: index_chunk_def Let_def f)
  note fa = fold_add_token [OF f]
  show "length (tf (index_chunk (i, c) st)) = length (tf st)"
    by (simp add: ic)
  show "j < length (tf st) \<Longrightarrow> get0 (tf (index_chunk (i, c) st) ! j) t =
           (if j = i then get0 (tf st ! i) t + count_list (tokenize (text_c c)) t
            else get0 (tf st ! j) t)"
    using fa [of t] assms by (simp add: ic nth_list_update)
  show "get0 (df (index_chunk (i, c) st)) t =
           get0 (df st) t + (if t \<in> set (tokenize (text_c c)) then 1 else 0)"
    using fa [of t] by (simp add: ic)
  show "docLengths (index_chunk (i, c) st) = docLengths st @ [length (tokenize (text_c c))]"
    by (simp add: ic)
  show "totalLength (index_chunk (i, c) st) = totalLength st + length (tokenize (text_c c))"
    by (simp add: ic)
qed

lemma fold_index_chunk:
  assumes "k + length cs \<le> length (tf st)"
  shows "length (tf (fold index_chunk (enumerate k cs) st)) = length (tf st) \<and>
     (\<forall>j < length (tf st). \<forall>t.
        get0 (tf (fold index_chunk (enumerate k cs) st) ! j) t =
          (if k \<le> j \<and> j < k + length cs
           then get0 (tf st ! j) t + count_list (tokenize (text_c (cs ! (j - k)))) t
           else get0 (tf st ! j) t)) \<and>
     (\<forall>t. get0 (df (fold index_chunk (enumerate k cs) st)) t =
           get0 (df st) t + length (filter (\<lambda>c. t \<in> set (tokenize (text_c c))) cs)) \<and>
     docLengths (fold index_chunk (enumerate k cs) st) =
       docLengths st @ map (\<lambda>c. length (tokenize (text_c c))) cs \<and>
     totalLength (fold index_chunk (enumerate k cs) st) =
       totalLength st + sum_list (map (\<lambda>c. length (tokenize (text_c c))) cs)"
  using assms
proof (induction cs arbitrary: k st)
  case Nil
  then show ?case by simp
next
  case (Cons c cs)
  let ?st1 = "index_chunk (k, c) st"
  have k: "k < length (tf st)" using Cons.prems by simp
  note s = index_chunk_step [OF k, where c = c]
  have le: "Suc k + length cs \<le> length (tf ?st1)"
    using Cons.prems by (simp add: s(1))
  note ih = Cons.IH [OF le]
  have fo: "fold index_chunk (enumerate k (c # cs)) st = fold index_chunk (enumerate (Suc k) cs) ?st1"
    by simp
  show ?case
    unfolding fo
  proof (intro conjI allI impI)
    show "length (tf (fold index_chunk (enumerate (Suc k) cs) ?st1)) = length (tf st)"
      using ih by (simp add: s(1))
  next
    fix j t assume j: "j < length (tf st)"
    then have j1: "j < length (tf ?st1)" by (simp add: s(1))
    from ih j1 have "get0 (tf (fold index_chunk (enumerate (Suc k) cs) ?st1) ! j) t =
          (if Suc k \<le> j \<and> j < Suc k + length cs
           then get0 (tf ?st1 ! j) t + count_list (tokenize (text_c (cs ! (j - Suc k)))) t
           else get0 (tf ?st1 ! j) t)" by blast
    then show "get0 (tf (fold index_chunk (enumerate (Suc k) cs) ?st1) ! j) t =
          (if k \<le> j \<and> j < k + length (c # cs)
           then get0 (tf st ! j) t + count_list (tokenize (text_c ((c # cs) ! (j - k)))) t
           else get0 (tf st ! j) t)"
      using s(2) [OF j, where t = t] by (auto simp: nth_Cons' Suc_diff_Suc less_Suc_eq_le)
  next
    fix t
    from ih have "get0 (df (fold index_chunk (enumerate (Suc k) cs) ?st1)) t =
           get0 (df ?st1) t + length (filter (\<lambda>c. t \<in> set (tokenize (text_c c))) cs)" by blast
    then show "get0 (df (fold index_chunk (enumerate (Suc k) cs) ?st1)) t =
           get0 (df st) t + length (filter (\<lambda>c. t \<in> set (tokenize (text_c c))) (c # cs))"
      using s(3) [where t = t] by simp
  next
    show "docLengths (fold index_chunk (enumerate (Suc k) cs) ?st1) =
       docLengths st @ map (\<lambda>c. length (tokenize (text_c c))) (c # cs)"
      using ih by (simp add: s(4))
  next
    show "totalLength (fold index_chunk (enumerate (Suc k) cs) ?st1) =
       totalLength st + sum_list (map (\<lambda>c. length (tokenize (text_c c))) (c # cs))"
      using ih by (simp add: s(5))
  qed
qed

lemma buildIndex_tf:
  "i < length cs \<Longrightarrow> get0 (ix_tf (buildIndex cs) ! i) t = freq_spec cs t i"
  using fold_index_chunk [of 0 cs
      "\<lparr> tf = map (\<lambda>_. Map.empty) cs, df = Map.empty, docLengths = [], totalLength = 0 \<rparr>"]
  by (simp add: buildIndex_def Let_def freq_spec_def get0_def)

lemma buildIndex_df:
  "get0 (ix_df (buildIndex cs)) t = df_spec cs t"
  using fold_index_chunk [of 0 cs
      "\<lparr> tf = map (\<lambda>_. Map.empty) cs, df = Map.empty, docLengths = [], totalLength = 0 \<rparr>"]
  by (simp add: buildIndex_def Let_def df_spec_def get0_def)

lemma buildIndex_docLengths:
  "ix_docLengths (buildIndex cs) = map (\<lambda>c. length (tokenize (text_c c))) cs"
  using fold_index_chunk [of 0 cs
      "\<lparr> tf = map (\<lambda>_. Map.empty) cs, df = Map.empty, docLengths = [], totalLength = 0 \<rparr>"]
  by (simp add: buildIndex_def Let_def)

lemma buildIndex_avgdl:
  "avgdl (buildIndex cs) = avgdl_spec cs"
  using fold_index_chunk [of 0 cs
      "\<lparr> tf = map (\<lambda>_. Map.empty) cs, df = Map.empty, docLengths = [], totalLength = 0 \<rparr>"]
  by (simp add: buildIndex_def Let_def avgdl_spec_def)

lemma buildIndex_N: "N (buildIndex cs) = length cs"
  by (simp add: buildIndex_def Let_def)

lemma score_term_eval:
  "score_term ix i t (s, m) =
     (if get0 (ix_df ix) t = 0 then (s, m)
      else (s + idf (N ix) (get0 (ix_df ix) t) *
                  tfNorm (get0 (ix_tf ix ! i) t) (ix_docLengths ix ! i) (avgdl ix),
            if get0 (ix_tf ix ! i) t > 0 then m @ [t] else m))"
  by (simp add: score_term_def Let_def)

lemma fold_score_term:
  "fold (score_term ix i) ts (s, m) =
     (s + (\<Sum>t\<leftarrow>filter (\<lambda>t. 0 < get0 (ix_df ix) t) ts.
             idf (N ix) (get0 (ix_df ix) t) *
             tfNorm (get0 (ix_tf ix ! i) t) (ix_docLengths ix ! i) (avgdl ix)),
      m @ filter (\<lambda>t. 0 < get0 (ix_df ix) t \<and> 0 < get0 (ix_tf ix ! i) t) ts)"
  by (induction ts arbitrary: s m) (simp_all add: score_term_eval)

lemma scored_length: "length (scored cs q) = length cs"
  by (simp add: scored_def Let_def)

lemma scored_nth:
  "i < length cs \<Longrightarrow>
     scored cs q ! i = score_chunk (buildIndex cs) (distinct_first (tokenize q)) (i, cs ! i)"
  by (simp add: scored_def Let_def nth_enumerate_eq)

lemma score_chunk_score:
  "score (score_chunk ix ts (i, c)) = fst (fold (score_term ix i) ts (0, []))"
  by (simp add: score_chunk_def chunk.extend_def scored_chunk.fields_def split: prod.splits)

lemma score_chunk_termMatches:
  "termMatches (score_chunk ix ts (i, c)) = snd (fold (score_term ix i) ts (0, []))"
  by (simp add: score_chunk_def chunk.extend_def scored_chunk.fields_def split: prod.splits)

lemma score_chunk_truncate:
  "chunk.truncate (score_chunk ix ts (i, c)) = c"
  by (simp add: score_chunk_def chunk.extend_def chunk.truncate_def scored_chunk.fields_def split: prod.splits)

lemma tfNorm_spec_eq:
  "tfNorm (freq_spec cs t i) (length (tokenize (text_c (cs ! i)))) (avgdl_spec cs)
     = tf_norm_spec cs t i"
  by (simp add: tfNorm_def tf_norm_spec_def k1_def b_def len_spec_def)

lemma idf_spec_eq: "idf (length cs) (df_spec cs t) = idf_spec cs t"
  by (simp add: idf_def idf_spec_def)

lemma scored_score_terms:
  assumes "i < length cs"
  shows "score (scored cs q ! i) = score_terms cs q i"
  using assms
  by (simp add: scored_nth score_chunk_score fold_score_term buildIndex_tf buildIndex_df
      buildIndex_docLengths buildIndex_avgdl buildIndex_N tfNorm_spec_eq idf_spec_eq score_terms_def)

lemma set_distinct_first: "set (distinct_first xs) = set xs"
  by (induction xs rule: distinct_first.induct) auto

lemma distinct_distinct_first: "distinct (distinct_first xs)"
  by (induction xs rule: distinct_first.induct) (auto simp: set_distinct_first)

lemma df_spec_le: "df_spec cs t \<le> length cs"
  by (simp add: df_spec_def)

lemma idf_nonneg:
  assumes "d \<le> n"
  shows "0 \<le> idf n d"
proof -
  have "0 \<le> (real n - real d + 0.5) / (real d + 0.5)"
    using assms by (intro divide_nonneg_nonneg) simp_all
  then have "1 \<le> (real n - real d + 0.5) / (real d + 0.5) + 1" by simp
  then show ?thesis unfolding idf_def by (rule ln_ge_zero)
qed

lemma idf_pos:
  assumes "d \<le> n"
  shows "0 < idf n d"
proof -
  have "0 < (real n - real d + 0.5) / (real d + 0.5)"
    using assms by (intro divide_pos_pos) simp_all
  then have "1 < (real n - real d + 0.5) / (real d + 0.5) + 1" by simp
  then show ?thesis unfolding idf_def by (rule ln_gt_zero)
qed

lemma tfNorm_nonneg:
  assumes "0 \<le> av"
  shows "0 \<le> tfNorm f l av"
proof -
  have "0 \<le> real l / av" using assms by simp
  then have "0 \<le> b * (real l / av)" by (simp add: b_def)
  then have "0 \<le> k1 * (1 - b + b * (real l / av))" by (simp add: k1_def b_def)
  then have "0 \<le> real f + k1 * (1 - b + b * (real l / av))" by simp
  moreover have "0 \<le> real f * (k1 + 1)" by (simp add: k1_def)
  ultimately show ?thesis unfolding tfNorm_def by (rule divide_nonneg_nonneg [rotated])
qed

lemma tfNorm_zero: "tfNorm 0 l av = 0"
  by (simp add: tfNorm_def)

lemma tfNorm_denominator_pos:
  assumes "0 \<le> av"
  shows "0 < real f + k1 * (1 - b + b * (real l / av))"
proof -
  have "0 \<le> real l / av" using assms by simp
  then have "0 \<le> b * (real l / av)" by (simp add: b_def)
  then have "0 < k1 * (1 - b + b * (real l / av))" by (simp add: k1_def b_def)
  then show ?thesis by (simp add: add_nonneg_pos)
qed

lemma tfNorm_pos:
  assumes "0 \<le> av" "0 < f"
  shows "0 < tfNorm f l av"
  unfolding tfNorm_def
  using tfNorm_denominator_pos [OF assms(1), of f l] assms(2)
  by (intro divide_pos_pos) (simp_all add: k1_def)

lemma avgdl_spec_nonneg: "0 \<le> avgdl_spec cs"
  by (simp add: avgdl_spec_def)

lemma df_spec_pos_iff: "0 < df_spec cs t \<longleftrightarrow> (\<exists>c\<in>set cs. t \<in> set (tokenize (text_c c)))"
  by (simp add: df_spec_def filter_empty_conv)

lemma freq_spec_pos_iff: "0 < freq_spec cs t i \<longleftrightarrow> t \<in> set (tokenize (text_c (cs ! i)))"
  by (simp add: freq_spec_def count_list_0_iff zero_less_iff_neq_zero)

lemma freq_pos_df_pos: "i < length cs \<Longrightarrow> 0 < freq_spec cs t i \<Longrightarrow> 0 < df_spec cs t"
  by (auto simp: df_spec_pos_iff freq_spec_pos_iff)

text \<open>A positive document frequency means a positive average length: no division by zero.\<close>

lemma avgdl_spec_pos:
  assumes "0 < df_spec cs t"
  shows "0 < avgdl_spec cs"
proof -
  from assms obtain c where c: "c \<in> set cs" "t \<in> set (tokenize (text_c c))"
    by (auto simp: df_spec_pos_iff)
  then have "0 < length (tokenize (text_c c))" by (cases "tokenize (text_c c)") auto
  moreover have "length (tokenize (text_c c)) \<le> (\<Sum>c\<leftarrow>cs. length (tokenize (text_c c)))"
    using c(1) by (simp add: member_le_sum_list)
  ultimately have "0 < (\<Sum>c\<leftarrow>cs. length (tokenize (text_c c)))" by linarith
  moreover have "0 < length cs" using c(1) by (cases cs) auto
  ultimately show ?thesis by (simp add: avgdl_spec_def)
qed

lemma score_terms_nonneg: "0 \<le> score_terms cs q i"
  unfolding score_terms_def
proof (rule sum_list_nonneg)
  fix x assume "x \<in> set (map (\<lambda>t. idf_spec cs t * tf_norm_spec cs t i)
      (filter (\<lambda>t. 0 < df_spec cs t) (distinct_first (tokenize q))))"
  then obtain t where x: "x = idf_spec cs t * tf_norm_spec cs t i" by auto
  have "0 \<le> idf (length cs) (df_spec cs t)" by (rule idf_nonneg [OF df_spec_le])
  moreover have "0 \<le> tfNorm (freq_spec cs t i) (length (tokenize (text_c (cs ! i)))) (avgdl_spec cs)"
    by (rule tfNorm_nonneg [OF avgdl_spec_nonneg])
  ultimately show "0 \<le> x" by (simp add: x idf_spec_eq tfNorm_spec_eq)
qed

lemma scored_nonneg: "r \<in> set (scored cs q) \<Longrightarrow> 0 \<le> score r"
  by (auto simp: in_set_conv_nth scored_length scored_score_terms score_terms_nonneg)

lemma set_js_slice: "set (js_slice xs a e) \<subseteq> set xs"
  unfolding js_slice_def Let_def
  by (meson set_take_subset set_drop_subset subset_trans)

lemma set_sort_desc: "set (sort_desc xs) = set xs"
  by (simp add: sort_desc_def)

lemma bm25Search_subset:
  "r \<in> set (bm25Search cs q k) \<Longrightarrow> r \<in> set (scored cs q) \<and> 0 < score r"
proof -
  assume r: "r \<in> set (bm25Search cs q k)"
  then have ne: "length cs \<noteq> 0" by (auto simp: bm25Search_def)
  with r have "r \<in> set (js_slice (sort_desc (filter (\<lambda>c. score c > 0) (scored cs q))) 0 k)"
    by (simp add: bm25Search_def)
  then have "r \<in> set (sort_desc (filter (\<lambda>c. score c > 0) (scored cs q)))"
    by (rule subsetD [OF set_js_slice])
  then show ?thesis by (simp add: set_sort_desc)
qed

lemma scored_termMatches:
  assumes "i < length cs"
  shows "termMatches (scored cs q ! i) =
           filter (\<lambda>t. 0 < freq_spec cs t i) (distinct_first (tokenize q))"
proof -
  have "(\<lambda>t. 0 < df_spec cs t \<and> 0 < freq_spec cs t i) = (\<lambda>t. 0 < freq_spec cs t i)"
    using freq_pos_df_pos [OF assms] by blast
  then show ?thesis
    using assms
    by (simp add: scored_nth score_chunk_termMatches fold_score_term buildIndex_tf buildIndex_df)
qed

lemma scored_truncate: "i < length cs \<Longrightarrow> chunk.truncate (scored cs q ! i) = cs ! i"
  by (simp add: scored_nth score_chunk_truncate)

lemma score_terms_pos_match:
  assumes "0 < score_terms cs q i"
  shows "\<exists>t\<in>set (distinct_first (tokenize q)). 0 < freq_spec cs t i"
proof (rule ccontr)
  assume "\<not> ?thesis"
  then have z: "\<And>t. t \<in> set (distinct_first (tokenize q)) \<Longrightarrow> freq_spec cs t i = 0" by auto
  have "score_terms cs q i = (\<Sum>t\<leftarrow>filter (\<lambda>t. 0 < df_spec cs t) (distinct_first (tokenize q)). 0)"
    unfolding score_terms_def
    by (rule arg_cong [where f = sum_list], rule map_cong [OF refl])
       (simp add: z tfNorm_spec_eq [symmetric] tfNorm_zero)
  then show False using assms by simp
qed

lemma score_terms_pos_iff:
  assumes "i < length cs"
  shows "0 < score_terms cs q i \<longleftrightarrow>
           (\<exists>t\<in>set (tokenize q). t \<in> set (tokenize (text_c (cs ! i))))"
proof
  assume "0 < score_terms cs q i"
  from score_terms_pos_match [OF this]
  show "\<exists>t\<in>set (tokenize q). t \<in> set (tokenize (text_c (cs ! i)))"
    by (auto simp: set_distinct_first freq_spec_pos_iff)
next
  assume "\<exists>t\<in>set (tokenize q). t \<in> set (tokenize (text_c (cs ! i)))"
  then obtain t where t: "t \<in> set (tokenize q)" "0 < freq_spec cs t i"
    by (auto simp: freq_spec_pos_iff)
  let ?ts = "filter (\<lambda>t. 0 < df_spec cs t) (distinct_first (tokenize q))"
  let ?f = "\<lambda>t. idf_spec cs t * tf_norm_spec cs t i"
  have dfp: "0 < df_spec cs t" by (rule freq_pos_df_pos [OF assms t(2)])
  then have mem: "t \<in> set ?ts" using t(1) by (simp add: set_distinct_first)
  have nn: "\<And>u. 0 \<le> ?f u"
  proof -
    fix u
    have "0 \<le> idf (length cs) (df_spec cs u)" by (rule idf_nonneg [OF df_spec_le])
    moreover have "0 \<le> tfNorm (freq_spec cs u i) (length (tokenize (text_c (cs ! i)))) (avgdl_spec cs)"
      by (rule tfNorm_nonneg [OF avgdl_spec_nonneg])
    ultimately show "0 \<le> ?f u" by (simp add: idf_spec_eq tfNorm_spec_eq)
  qed
  have pos: "0 < ?f t"
  proof -
    have "0 < idf (length cs) (df_spec cs t)" by (rule idf_pos [OF df_spec_le])
    moreover have "0 < tfNorm (freq_spec cs t i) (length (tokenize (text_c (cs ! i)))) (avgdl_spec cs)"
      by (rule tfNorm_pos [OF avgdl_spec_nonneg t(2)])
    ultimately show ?thesis by (simp add: idf_spec_eq tfNorm_spec_eq)
  qed
  have "?f t \<le> sum_list (map ?f ?ts)"
    by (rule member_le_sum_list) (use mem nn in auto)
  with pos show "0 < score_terms cs q i" by (simp add: score_terms_def)
qed

lemma js_slice_from_0:
  "js_slice xs 0 k = (if k < 0 then take (length xs - nat (- k)) xs else take (nat k) xs)"
  by (auto simp: js_slice_def slice_bound_def Let_def min_def max_def nat_diff_distrib nat_add_distrib
      intro: arg_cong2 [where f = take])

lemma sorted_sort_desc: "sorted_wrt (\<lambda>x y. score y \<le> score x) (sort_desc xs)"
proof -
  have "sorted (map (\<lambda>c. - score c) (sort_key (\<lambda>c. - score c) xs))" by (rule sorted_sort_key)
  then show ?thesis by (simp add: sort_desc_def sorted_map)
qed

lemma sorted_js_slice: "sorted_wrt P xs \<Longrightarrow> sorted_wrt P (js_slice xs a e)"
  by (simp add: js_slice_def Let_def sorted_wrt_take sorted_wrt_drop)

section \<open>The example, evaluated\<close>

lemma ex_tok: "''food'' \<in> set (tokenize ''food'')"
  "''food'' \<in> set (tokenize ''dog food recipes'')"
  "''food'' \<in> set (tokenize ''cat food recipes'')"
  by code_simp+

lemma ex_scored_pos:
  "0 < score (scored ex_chunks ''food'' ! 0)" "0 < score (scored ex_chunks ''food'' ! 1)"
proof -
  have l: "0 < length ex_chunks" "1 < length ex_chunks" by (simp_all add: ex_chunks_def)
  show "0 < score (scored ex_chunks ''food'' ! 0)"
    unfolding scored_score_terms [OF l(1)] score_terms_pos_iff [OF l(1)]
    using ex_tok by (auto simp: ex_chunks_def)
  show "0 < score (scored ex_chunks ''food'' ! 1)"
    unfolding scored_score_terms [OF l(2)] score_terms_pos_iff [OF l(2)]
    using ex_tok by (auto simp: ex_chunks_def)
qed

lemma list2: "length xs = 2 \<Longrightarrow> xs = [xs ! 0, xs ! 1]"
  by (cases xs; cases "tl xs") auto

lemma ex_filter:
  "filter (\<lambda>c. 0 < score c) (scored ex_chunks ''food'') = scored ex_chunks ''food''"
proof -
  have "length (scored ex_chunks ''food'') = 2" by (simp add: scored_length ex_chunks_def)
  from list2 [OF this] have "set (scored ex_chunks ''food'') =
      {scored ex_chunks ''food'' ! 0, scored ex_chunks ''food'' ! 1}"
    by (metis list.simps(15) empty_set)
  then show ?thesis using ex_scored_pos by (auto simp: filter_id_conv)
qed

lemma ex_ranked_counts:
  "tokenize ''food'' = [''food'']"
  "df_spec ex_ranked ''food'' = 2"
  "freq_spec ex_ranked ''food'' 0 = 1" "freq_spec ex_ranked ''food'' (Suc 0) = 1"
  "len_spec ex_ranked 0 = 5" "len_spec ex_ranked (Suc 0) = 1"
  "(\<Sum>c\<leftarrow>ex_ranked. length (tokenize (text_c c))) = 6"
  "length ex_ranked = 2"
  by code_simp+

lemma ex_ranked_scores:
  "score (scored ex_ranked ''food'' ! 0) = ln (6 / 5) * (10 / 13)"
  "score (scored ex_ranked ''food'' ! 1) = ln (6 / 5) * (10 / 7)"
proof -
  have l: "0 < length ex_ranked" "1 < length ex_ranked" by (simp_all add: ex_ranked_counts)
  have av: "avgdl_spec ex_ranked = 3" by (simp add: avgdl_spec_def ex_ranked_counts)
  show "score (scored ex_ranked ''food'' ! 0) = ln (6 / 5) * (10 / 13)"
    unfolding scored_score_terms [OF l(1)]
    by (simp add: score_terms_def ex_ranked_counts idf_spec_def tf_norm_spec_def av)
  show "score (scored ex_ranked ''food'' ! 1) = ln (6 / 5) * (10 / 7)"
    unfolding scored_score_terms [OF l(2)]
    by (simp add: score_terms_def ex_ranked_counts idf_spec_def tf_norm_spec_def av)
qed

lemma ex_ranked_order:
  "0 < score (scored ex_ranked ''food'' ! 0)"
  "score (scored ex_ranked ''food'' ! 0) < score (scored ex_ranked ''food'' ! 1)"
proof -
  have p: "(0::real) < ln (6 / 5)" by (rule ln_gt_zero) simp
  then show "0 < score (scored ex_ranked ''food'' ! 0)" by (simp add: ex_ranked_scores)
  have "(10 / 13 :: real) < 10 / 7" by simp
  with p have "ln (6 / 5) * (10 / 13) < ln (6 / 5) * (10 / 7 :: real)"
    by (rule mult_strict_left_mono [rotated])
  then show "score (scored ex_ranked ''food'' ! 0) < score (scored ex_ranked ''food'' ! 1)"
    by (simp only: ex_ranked_scores)
qed

lemma ex_ranked_search:
  "length (filter (\<lambda>c. 0 < score c) (scored ex_ranked ''food'')) = 2"
  "bm25Search ex_ranked ''food'' 1 = [scored ex_ranked ''food'' ! 1]"
proof -
  have "length (scored ex_ranked ''food'') = 2" by (simp add: scored_length ex_ranked_counts)
  from list2 [OF this] obtain e0 e1 where
    s: "scored ex_ranked ''food'' = [e0, e1]" and e: "e0 = scored ex_ranked ''food'' ! 0"
      "e1 = scored ex_ranked ''food'' ! 1"
    by blast
  from ex_ranked_order have o: "0 < score e0" "score e0 < score e1" by (simp_all only: e)
  then show "length (filter (\<lambda>c. 0 < score c) (scored ex_ranked ''food'')) = 2"
    by (simp add: s)
  from o have "sort_desc (filter (\<lambda>c. 0 < score c) [e0, e1]) = [e1, e0]"
    by (simp add: sort_desc_def)
  then have "bm25Search ex_ranked ''food'' 1 = [e1]"
    by (simp add: bm25Search_def s js_slice_from_0 ex_ranked_counts)
  then show "bm25Search ex_ranked ''food'' 1 = [scored ex_ranked ''food'' ! 1]" by (simp only: e)
qed

lemma ex_scored_mem: "scored ex_chunks ''food'' ! 0 \<in> set (scored ex_chunks ''food'')"
  by (rule nth_mem) (simp add: scored_length ex_chunks_def)

lemma ex_search_mem: "hd (bm25Search ex_chunks ''food'' 5) \<in> set (bm25Search ex_chunks ''food'' 5)"
proof -
  have "length (sort_desc (scored ex_chunks ''food'')) = 2"
    by (simp add: sort_desc_def scored_length ex_chunks_def)
  moreover have "length ex_chunks \<noteq> 0" by (simp add: ex_chunks_def)
  ultimately have "length (bm25Search ex_chunks ''food'' 5) = 2"
    by (simp add: bm25Search_def ex_filter js_slice_from_0)
  then have "bm25Search ex_chunks ''food'' 5 \<noteq> []" by auto
  then show ?thesis by (rule hd_in_set)
qed

lemma ex_no_match:
  "set (tokenize ''zebra'') \<inter> set (tokenize (text_c (ex_chunks ! 0))) = {}"
  by code_simp

lemma ex_match:
  "\<exists>t\<in>set (tokenize ''food''). t \<in> set (tokenize (text_c (ex_chunks ! 0)))"
  using ex_tok by (auto simp: ex_chunks_def)

section \<open>Properties of the search\<close>

lemma score_terms_spec: "score_terms cs q i = score_spec cs q i"
proof -
  let ?ts = "filter (\<lambda>t. 0 < df_spec cs t) (distinct_first (tokenize q))"
  have "distinct ?ts" by (simp add: distinct_distinct_first)
  then have "score_terms cs q i = (\<Sum>t\<in>set ?ts. idf_spec cs t * tf_norm_spec cs t i)"
    unfolding score_terms_def by (rule sum_list_distinct_conv_sum_set)
  moreover have "set ?ts = set (filter (\<lambda>t. 0 < df_spec cs t) (tokenize q))"
    by (simp add: set_distinct_first)
  ultimately show ?thesis by (simp only: score_spec_def)
qed

lemma ex_repeated_query:
  "set (filter (\<lambda>t. 0 < df_spec ex_chunks t) (tokenize ''food food'')) =
   set (filter (\<lambda>t. 0 < df_spec ex_chunks t) (tokenize ''food''))"
proof -
  have "set (tokenize ''food food'') = set (tokenize ''food'')" by code_simp
  then show ?thesis by (simp only: set_filter)
qed

text \<open>
  Claim C3. For a non-empty chunk list, the score that \<open>bm25Search\<close> assigns to chunk
  \<open>i\<close> (entry \<open>i\<close> of the array \<open>scored\<close>) is the sum, over the set of the query terms
  of positive document frequency, of \<open>idf(t) * tf_norm(t, i)\<close> with the formulas of the
  specification, \<open>k1 = 1.5\<close> and \<open>b = 0.75\<close>: each distinct term is counted once,
  however often the query repeats it, and terms of document frequency zero are not part
  of the sum. Entry \<open>i\<close> carries the fields of chunk \<open>i\<close>, and every returned entry is
  one of these entries. For a term of the sum the divisors of the two formulas are
  positive, so the total division of the reals is the division of the source.
\<close>

theorem bm25_score_formula:
  "(\<forall>i<length cs. score (scored cs q ! i) = score_spec cs q i \<and>
                     chunk.truncate (scored cs q ! i) = cs ! i) \<and>
   (\<forall>r\<in>set (bm25Search cs q k). \<exists>i<length cs. r = scored cs q ! i) \<and>
   (\<forall>t. 0 < df_spec cs t \<longrightarrow>
        0 < avgdl_spec cs \<and> 0 < real (df_spec cs t) + 0.5 \<and>
        (\<forall>i. 0 < real (freq_spec cs t i) +
                  1.5 * (1 - 0.75 + 0.75 * real (len_spec cs i) / avgdl_spec cs)))"
proof (intro conjI allI impI ballI)
  fix t i assume "0 < df_spec cs t"
  from tfNorm_denominator_pos [OF avgdl_spec_nonneg, of "freq_spec cs t i" "len_spec cs i" cs]
  show "0 < real (freq_spec cs t i) +
                  1.5 * (1 - 0.75 + 0.75 * real (len_spec cs i) / avgdl_spec cs)"
    by (simp add: k1_def b_def)
next
  fix t assume "0 < df_spec cs t"
  then show "0 < avgdl_spec cs" by (rule avgdl_spec_pos)
next
  fix t show "0 < real (df_spec cs t) + 0.5" by (simp add: add_nonneg_pos)
next
  fix i assume "i < length cs"
  then show "score (scored cs q ! i) = score_spec cs q i"
    by (simp only: scored_score_terms score_terms_spec)
next
  fix i assume "i < length cs"
  then show "chunk.truncate (scored cs q ! i) = cs ! i" by (rule scored_truncate)
next
  fix r assume "r \<in> set (bm25Search cs q k)"
  then have "r \<in> set (scored cs q)" by (simp add: bm25Search_subset)
  then show "\<exists>i<length cs. r = scored cs q ! i"
    by (auto simp: in_set_conv_nth scored_length)
qed

text \<open>
  The theorem at the example input, for the query \<open>food\<close> and for the query that
  repeats the term: the repeated term counts once, so both queries give the same score.
\<close>

theorem bm25_score_formula_witness:
  "(0::nat) < length ex_chunks \<and>
   score (scored ex_chunks ''food'' ! 0) = score_spec ex_chunks ''food'' 0 \<and>
   score (scored ex_chunks ''food food'' ! 0) = score (scored ex_chunks ''food'' ! 0) \<and>
   chunk.truncate (scored ex_chunks ''food'' ! 0) = ex_chunks ! 0 \<and>
   hd (bm25Search ex_chunks ''food'' 5) \<in> set (bm25Search ex_chunks ''food'' 5) \<and>
   (\<exists>i<length ex_chunks. hd (bm25Search ex_chunks ''food'' 5) = scored ex_chunks ''food'' ! i)"
proof -
  have l: "0 < length ex_chunks" by (simp add: ex_chunks_def)
  note th = bm25_score_formula [of ex_chunks "''food''" 5]
  note th2 = bm25_score_formula [of ex_chunks "''food food''" 5]
  from th l have a: "score (scored ex_chunks ''food'' ! 0) = score_spec ex_chunks ''food'' 0 \<and>
      chunk.truncate (scored ex_chunks ''food'' ! 0) = ex_chunks ! 0" by blast
  from th2 l have "score (scored ex_chunks ''food food'' ! 0) = score_spec ex_chunks ''food food'' 0"
    by blast
  also have "\<dots> = score_spec ex_chunks ''food'' 0"
    by (simp only: score_spec_def ex_repeated_query)
  finally have b: "score (scored ex_chunks ''food food'' ! 0) = score (scored ex_chunks ''food'' ! 0)"
    using a by simp
  from th ex_search_mem
  have c: "\<exists>i<length ex_chunks. hd (bm25Search ex_chunks ''food'' 5) = scored ex_chunks ''food'' ! i"
    by blast
  from a b c l ex_search_mem show ?thesis by blast
qed

text \<open>
  Claim C7. Every score computed by \<open>bm25Search\<close> is non-negative, for the entries of
  \<open>scored\<close> (returned or not) and for the returned ones; the smoothed \<open>idf\<close> is
  non-negative for every document frequency up to the number of chunks, in particular
  for a term that occurs in every chunk.
\<close>

theorem bm25_score_nonneg:
  "(\<forall>r\<in>set (scored cs q). 0 \<le> score r) \<and>
   (\<forall>r\<in>set (bm25Search cs q k). 0 \<le> score r) \<and>
   (\<forall>d\<le>n. 0 \<le> idf n d) \<and> 0 \<le> idf n n"
proof (intro conjI allI impI ballI)
  fix r assume "r \<in> set (scored cs q)"
  then show "0 \<le> score r" by (rule scored_nonneg)
next
  fix r assume "r \<in> set (bm25Search cs q k)"
  then have "0 < score r" by (simp add: bm25Search_subset)
  then show "0 \<le> score r" by simp
next
  fix d assume "d \<le> n"
  then show "0 \<le> idf n d" by (rule idf_nonneg)
next
  show "0 \<le> idf n n" by (rule idf_nonneg) simp
qed

text \<open>The theorem at the example input.\<close>

theorem bm25_score_nonneg_witness:
  "scored ex_chunks ''food'' ! 0 \<in> set (scored ex_chunks ''food'') \<and>
   0 \<le> score (scored ex_chunks ''food'' ! 0) \<and>
   hd (bm25Search ex_chunks ''food'' 5) \<in> set (bm25Search ex_chunks ''food'' 5) \<and>
   0 \<le> score (hd (bm25Search ex_chunks ''food'' 5)) \<and>
   (2::nat) \<le> 2 \<and> 0 \<le> idf 2 2"
proof -
  note th = bm25_score_nonneg [of ex_chunks "''food''" 5 2]
  from th ex_scored_mem have "0 \<le> score (scored ex_chunks ''food'' ! 0)" by blast
  moreover from th ex_search_mem have "0 \<le> score (hd (bm25Search ex_chunks ''food'' 5))" by blast
  moreover from th have "0 \<le> idf 2 2" by blast
  ultimately show ?thesis using ex_scored_mem ex_search_mem by simp
qed

text \<open>
  Claim C8. \<open>topK\<close> is a number of results, so \<open>0 \<le> topK\<close>. The search returns at most
  \<open>topK\<close> entries, each returned entry has a positive score (an entry of score \<open>\<le> 0\<close> is
  not returned), and the returned entries are in descending order of score.
\<close>

theorem bm25Search_topK:
  "(0 \<le> k \<longrightarrow> int (length (bm25Search cs q k)) \<le> k) \<and>
   (\<forall>r\<in>set (bm25Search cs q k). 0 < score r) \<and>
   sorted_wrt (\<lambda>x y. score y \<le> score x) (bm25Search cs q k)"
proof (intro conjI impI ballI)
  assume "0 \<le> k"
  then show "int (length (bm25Search cs q k)) \<le> k"
    by (auto simp: bm25Search_def js_slice_from_0 min_def)
next
  fix r assume "r \<in> set (bm25Search cs q k)"
  then show "0 < score r" by (simp add: bm25Search_subset)
next
  show "sorted_wrt (\<lambda>x y. score y \<le> score x) (bm25Search cs q k)"
    by (simp add: bm25Search_def sorted_js_slice sorted_sort_desc)
qed

text \<open>
  The theorem at the two chunks of \<open>ex_ranked\<close> with \<open>topK = 1\<close>: both chunks have a
  positive score, the second of them the higher one, and the search returns that entry
  alone.
\<close>

theorem bm25Search_topK_witness:
  "(0::int) \<le> 1 \<and>
   length (filter (\<lambda>c. 0 < score c) (scored ex_ranked ''food'')) = 2 \<and>
   score (scored ex_ranked ''food'' ! 0) < score (scored ex_ranked ''food'' ! 1) \<and>
   bm25Search ex_ranked ''food'' 1 = [scored ex_ranked ''food'' ! 1] \<and>
   int (length (bm25Search ex_ranked ''food'' 1)) \<le> 1 \<and>
   scored ex_ranked ''food'' ! 1 \<in> set (bm25Search ex_ranked ''food'' 1) \<and>
   0 < score (scored ex_ranked ''food'' ! 1) \<and>
   sorted_wrt (\<lambda>x y. score y \<le> score x) (bm25Search ex_ranked ''food'' 1)"
proof -
  note th = bm25Search_topK [of 1 ex_ranked "''food''"]
  have mem: "scored ex_ranked ''food'' ! 1 \<in> set (bm25Search ex_ranked ''food'' 1)"
    by (simp only: ex_ranked_search(2)) simp
  from th have "int (length (bm25Search ex_ranked ''food'' 1)) \<le> 1" by simp
  moreover from th mem have "0 < score (scored ex_ranked ''food'' ! 1)" by blast
  moreover from th have "sorted_wrt (\<lambda>x y. score y \<le> score x) (bm25Search ex_ranked ''food'' 1)"
    by blast
  ultimately show ?thesis using mem ex_ranked_search ex_ranked_order(2) by simp
qed

text \<open>
  Claim C10. Every returned entry has a non-empty \<open>termMatches\<close> list, which holds
  exactly the query terms that occur among the tokens of its text. For every chunk, the
  score is positive exactly when some query term occurs in the chunk, and a chunk in
  which no query term occurs has score 0 and is not returned.
\<close>

theorem bm25Search_termMatches:
  "(\<forall>r\<in>set (bm25Search cs q k).
      termMatches r \<noteq> [] \<and>
      set (termMatches r) = set (tokenize q) \<inter> set (tokenize (text_c r))) \<and>
   (\<forall>i<length cs.
      termMatches (scored cs q ! i) =
        filter (\<lambda>t. t \<in> set (tokenize (text_c (cs ! i)))) (distinct_first (tokenize q)) \<and>
      (0 < score (scored cs q ! i) \<longleftrightarrow>
         (\<exists>t\<in>set (tokenize q). t \<in> set (tokenize (text_c (cs ! i))))) \<and>
      (set (tokenize q) \<inter> set (tokenize (text_c (cs ! i))) = {} \<longrightarrow>
         score (scored cs q ! i) = 0 \<and> scored cs q ! i \<notin> set (bm25Search cs q k)))"
proof (intro conjI allI impI ballI)
  fix r assume r: "r \<in> set (bm25Search cs q k)"
  then have rs: "r \<in> set (scored cs q)" and pos: "0 < score r"
    by (simp_all add: bm25Search_subset)
  from rs obtain i where i: "i < length cs" "r = scored cs q ! i"
    by (auto simp: in_set_conv_nth scored_length)
  have "text_c (chunk.truncate (scored cs q ! i)) = text_c (cs ! i)"
    by (simp only: scored_truncate [OF i(1)])
  then have tx: "text_c r = text_c (cs ! i)"
    by (simp add: chunk.truncate_def i(2))
  have tm: "termMatches r = filter (\<lambda>t. t \<in> set (tokenize (text_c (cs ! i)))) (distinct_first (tokenize q))"
    by (simp add: i scored_termMatches freq_spec_pos_iff)
  from pos have "\<exists>t\<in>set (tokenize q). t \<in> set (tokenize (text_c (cs ! i)))"
    by (simp add: i scored_score_terms score_terms_pos_iff)
  then show "termMatches r \<noteq> []"
    by (auto simp: tm filter_empty_conv set_distinct_first)
  show "set (termMatches r) = set (tokenize q) \<inter> set (tokenize (text_c r))"
    by (auto simp: tm tx set_distinct_first)
next
  fix i assume i: "i < length cs"
  show "termMatches (scored cs q ! i) =
        filter (\<lambda>t. t \<in> set (tokenize (text_c (cs ! i)))) (distinct_first (tokenize q))"
    by (simp add: i scored_termMatches freq_spec_pos_iff)
  show "0 < score (scored cs q ! i) \<longleftrightarrow>
         (\<exists>t\<in>set (tokenize q). t \<in> set (tokenize (text_c (cs ! i))))"
    by (simp add: i scored_score_terms score_terms_pos_iff)
next
  fix i assume i: "i < length cs"
    and e: "set (tokenize q) \<inter> set (tokenize (text_c (cs ! i))) = {}"
  then have "\<not> 0 < score_terms cs q i" by (auto simp: score_terms_pos_iff)
  then show z: "score (scored cs q ! i) = 0"
    using score_terms_nonneg [of cs q i] by (simp add: i scored_score_terms)
  show "scored cs q ! i \<notin> set (bm25Search cs q k)"
  proof
    assume "scored cs q ! i \<in> set (bm25Search cs q k)"
    then have "0 < score (scored cs q ! i)" by (simp add: bm25Search_subset)
    with z show False by simp
  qed
qed

text \<open>The theorem at the example input, for a matching and for a non-matching query.\<close>

theorem bm25Search_termMatches_witness:
  "hd (bm25Search ex_chunks ''food'' 5) \<in> set (bm25Search ex_chunks ''food'' 5) \<and>
   termMatches (hd (bm25Search ex_chunks ''food'' 5)) \<noteq> [] \<and>
   (0::nat) < length ex_chunks \<and>
   0 < score (scored ex_chunks ''food'' ! 0) \<and>
   set (tokenize ''zebra'') \<inter> set (tokenize (text_c (ex_chunks ! 0))) = {} \<and>
   score (scored ex_chunks ''zebra'' ! 0) = 0"
proof -
  have l: "0 < length ex_chunks" by (simp add: ex_chunks_def)
  note food = bm25Search_termMatches [of ex_chunks "''food''" 5]
  note zebra = bm25Search_termMatches [of ex_chunks "''zebra''" 5]
  from food ex_search_mem have "termMatches (hd (bm25Search ex_chunks ''food'' 5)) \<noteq> []"
    by blast
  moreover from food l ex_match have "0 < score (scored ex_chunks ''food'' ! 0)"
    by blast
  moreover from zebra l ex_no_match have "score (scored ex_chunks ''zebra'' ! 0) = 0"
    by blast
  ultimately show ?thesis using l ex_search_mem ex_no_match by blast
qed

section \<open>The fallback loop\<close>

lemma split_loop_Some:
  "0 < chunkSize - overlap \<Longrightarrow>
   split_loop chunkSize overlap di dn para cp pos st =
     Some (fold (push_window chunkSize di dn para cp)
             (window_starts (chunkSize - overlap) (int (length para)) pos) st)"
proof (induction "chunkSize - overlap" "int (length para)" pos arbitrary: st rule: window_starts.induct)
  case (1 pos)
  show ?case
  proof (cases "pos < int (length para)")
    case True
    with 1 show ?thesis
      by (subst split_loop.simps, subst window_starts.simps) (simp add: push_window_def)
  next
    case False
    then show ?thesis
      by (subst split_loop.simps, subst window_starts.simps) simp
  qed
qed

lemma split_loop_not_Some:
  assumes "split_loop chunkSize overlap di dn para cp pos st = Some y"
  shows "pos < int (length para) \<longrightarrow> 0 < chunkSize - overlap"
proof (rule split_loop.raw_induct
    [where P = "\<lambda>cs ov di dn para cp pos st y. pos < int (length para) \<longrightarrow> 0 < cs - ov",
      OF _ assms], goal_cases)
  case (1 f cs ov di' dn' para' cp' pos' st' y')
  show ?case
  proof (cases "pos' < int (length para')")
    case True
    with 1(2) have "f cs ov di' dn' para' cp' (pos' + (cs - ov))
             (push_chunk di' dn' (js_slice para' pos' (pos' + cs)) (cp' + pos') st') = Some y'"
      by simp
    from 1(1) [OF this] True show ?thesis by auto
  next
    case False
    then show ?thesis by simp
  qed
qed

lemma split_loop_None:
  "chunkSize - overlap \<le> 0 \<Longrightarrow> pos < int (length para) \<Longrightarrow>
   split_loop chunkSize overlap di dn para cp pos st = None"
  using split_loop_not_Some [of chunkSize overlap di dn para cp pos st]
  by (cases "split_loop chunkSize overlap di dn para cp pos st") auto

lemma split_loop_eq:
  "split_loop chunkSize overlap di dn para cp pos st =
     (if pos < int (length para)
      then (if 0 < chunkSize - overlap
            then Some (fold (push_window chunkSize di dn para cp)
                        (window_starts (chunkSize - overlap) (int (length para)) pos) st)
            else None)
      else Some st)"
proof (cases "pos < int (length para)")
  case True
  then show ?thesis
    by (cases "0 < chunkSize - overlap") (simp_all add: split_loop_Some split_loop_None)

next
  case False
  then show ?thesis by (subst split_loop.simps) simp
qed

lemma fold_push_window:
  "fold (push_window chunkSize di dn para cp) ps st =
     st\<lparr> chunks := chunks st @ map (window_chunk chunkSize di dn para cp) (enumerate (globalId st) ps),
         globalId := globalId st + length ps \<rparr>"
proof (induction ps arbitrary: st)
  case Nil
  then show ?case by simp

next
  case (Cons p ps)
  show ?case
    by (simp add: Cons.IH) (simp add: push_window_def push_chunk_def window_chunk_def)
qed

lemma window_starts_closed:
  assumes "0 < step"
  shows "window_starts step len pos =
           map (\<lambda>k. pos + int k * step) [0..<nat (- ((pos - len) div step))]"
  using assms
proof (induction step len pos rule: window_starts.induct)
  case (1 step len pos)
  show ?case
  proof (cases "pos < len")
    case True
    have d: "(pos + step - len) div step = (pos - len) div step + 1"
      using 1(2) by (metis add.commute add_diff_eq div_add_self1 less_irrefl)
    have neg: "(pos - len) div step < 0"
      using True 1(2) by (simp add: pos_imp_zdiv_neg_iff)
    then have n: "nat (- ((pos - len) div step)) = Suc (nat (- ((pos + step - len) div step)))"
      using d by simp
    have "window_starts step len pos = pos # window_starts step len (pos + step)"
      using True 1(2) by (subst window_starts.simps) simp
    also have "window_starts step len (pos + step) =
        map (\<lambda>k. pos + step + int k * step) [0..<nat (- ((pos + step - len) div step))]"
      using 1(1) True 1(2) by simp
    also have "pos # \<dots> = map (\<lambda>k. pos + int k * step) [0..<nat (- ((pos - len) div step))]"
      unfolding n
      by (simp only: map_upt_Suc) (simp add: algebra_simps)
    finally show ?thesis .
  next
    case False
    then have "0 \<le> (pos - len) div step" using 1(2) by (simp add: pos_imp_zdiv_nonneg_iff)
    then show ?thesis using False by (subst window_starts.simps) simp
  qed
qed

lemma js_slice_window:
  "0 \<le> p \<Longrightarrow> 0 \<le> c \<Longrightarrow> js_slice xs p (p + c) = take (nat c) (drop (nat p) xs)"
  by (cases "nat p < length xs")
     (auto simp: js_slice_def slice_bound_def Let_def min_def nat_add_distrib)

lemma dropWhile_id: "xs = [] \<or> \<not> P (hd xs) \<Longrightarrow> dropWhile P xs = xs"
  by (cases xs) auto

lemma trim_id:
  assumes "\<forall>c\<in>set s. \<not> is_space c"
  shows "trim s = s"
proof -
  have "dropWhile is_space s = s" using assms by (intro dropWhile_id) (cases s, auto)
  moreover have "dropWhile is_space (rev s) = rev s"
    using assms by (intro dropWhile_id) (cases "rev s", auto simp: hd_rev last_in_set)
  ultimately show ?thesis by (simp add: trim_def)
qed

lemma split_paragraphs_no_LF:
  "CHR 0x0A \<notin> set s \<Longrightarrow> split_paragraphs cur s = [cur @ s]"
  by (induction cur s rule: split_paragraphs.induct) auto

lemma paragraphs_of_plain:
  assumes "\<forall>c\<in>set s. \<not> is_space c" "s \<noteq> []"
  shows "trim s = s" "paragraphs_of (trim s) = [s]"
proof -
  show t: "trim s = s" by (rule trim_id [OF assms(1)])
  have "CHR 0x0A \<notin> set s" using assms(1) by (auto simp: is_space_def)
  then show "paragraphs_of (trim s) = [s]"
    using assms(2) by (simp add: paragraphs_of_def t split_paragraphs_no_LF)
qed

lemma paragraphs_of_Nil: "paragraphs_of [] = []"
  by (simp add: paragraphs_of_def trim_def)

lemma paragraphs_of_nonempty: "paragraphs_of t = p # ps \<Longrightarrow> t \<noteq> []"
  by (auto simp: paragraphs_of_Nil)

text \<open>A document that is one paragraph longer than \<open>chunkSize\<close>: only the fallback runs.\<close>

lemma chunkDocuments_single_paragraph:
  assumes "paragraphs_of (trim (text_d doc)) = [para]" "chunkSize < int (length para)"
  shows "chunkDocuments [doc] chunkSize overlap =
     (if 0 < chunkSize - overlap
      then Some (map (window_chunk chunkSize 0 (name doc) para 0)
                  (enumerate 0 (window_starts (chunkSize - overlap) (int (length para)) 0)))
      else None)"
proof -
  have ne: "trim (text_d doc) \<noteq> []"
    using assms(1) by (rule paragraphs_of_nonempty)
  from assms(1) have pne: "para \<noteq> []" by (auto simp: paragraphs_of_def filter_eq_Cons_iff)
  then have pos: "0 < int (length para)" by simp
  show ?thesis
    using assms(2) pos
    by (simp add: chunkDocuments_def chunk_doc_def Let_def ne assms(1) para_step_def
        split_loop_eq fold_push_window)
qed

lemma chunkDocuments_first_paragraph_long:
  assumes "paragraphs_of (trim (text_d doc)) = para # paras" "chunkSize < int (length para)"
    and "chunkSize \<le> overlap"
  shows "chunkDocuments (doc # docs) chunkSize overlap = None"
proof -
  have ne: "trim (text_d doc) \<noteq> []"
    using assms(1) by (rule paragraphs_of_nonempty)
  from assms(1) have pne: "para \<noteq> []" by (auto simp: paragraphs_of_def filter_eq_Cons_iff)
  then have pos: "0 < int (length para)" by simp
  show ?thesis
    using assms(2,3) pos
    by (simp add: chunkDocuments_def chunk_doc_def Let_def ne assms(1) para_step_def
        split_loop_eq)
qed

lemma ex_doc_paragraphs: "paragraphs_of (trim (text_d ex_doc)) = [''abcdefghij'']"
  using paragraphs_of_plain(2) [of "''abcdefghij''"]
  by (simp add: ex_doc_def is_space_def)

text \<open>
  Claim C1. The chunker has no check of its size parameters. With
  \<open>overlap = chunkSize = 2\<close> a document of one character is chunked as with any other
  sizes: the configuration is not rejected. With a three-character paragraph the
  fallback loop is entered with step 0, the position never moves, and the call does not
  return.
\<close>

theorem chunkDocuments_no_guard:
  "chunkDocuments [\<lparr> name = ''X'', text_d = ''abc'' \<rparr>] 2 2 = None \<and>
   chunkDocuments [\<lparr> name = ''X'', text_d = ''a'' \<rparr>] 2 2 =
     Some [\<lparr> id_c = 0, text_c = ''a'', docIndex = 0, docName = ''X'', startChar = 0 \<rparr>]"
proof -
  have "paragraphs_of (trim (text_d \<lparr> name = ''X'', text_d = ''abc'' \<rparr>)) = [''abc'']"
    using paragraphs_of_plain(2) [of "''abc''"] by (simp add: is_space_def)
  from chunkDocuments_first_paragraph_long [OF this, of 2 2 "[]"]
  have a: "chunkDocuments [\<lparr> name = ''X'', text_d = ''abc'' \<rparr>] 2 2 = None" by simp
  have b: "chunkDocuments [\<lparr> name = ''X'', text_d = ''a'' \<rparr>] 2 2 =
     Some [\<lparr> id_c = 0, text_c = ''a'', docIndex = 0, docName = ''X'', startChar = 0 \<rparr>]"
    by code_simp
  from a b show ?thesis by simp
qed

lemma window_count:
  assumes "0 < step"
  shows "int (length (window_starts step (int L) 0)) = \<lceil>real L / real_of_int step\<rceil>"
proof -
  have "\<lceil>real L / real_of_int step\<rceil> = - (- int L div step)"
    using ceiling_divide_eq_div [of "int L" step] by simp
  moreover have "- int L div step \<le> 0"
    using assms by (intro div_nonpos_pos_le0) simp_all
  ultimately show ?thesis
    by (simp add: window_starts_closed [OF assms])
qed

lemma window_chunk_nth:
  assumes "0 < step" "0 \<le> chunkSize"
    and "k < length (window_starts step len 0)"
  shows "map (window_chunk chunkSize di dn para cp) (enumerate g (window_starts step len 0)) ! k =
     \<lparr> id_c = g + k, text_c = take (nat chunkSize) (drop (k * nat step) para),
       docIndex = di, docName = dn, startChar = cp + int k * step \<rparr>"
proof -
  have "window_starts step len 0 ! k = int k * step"
    using assms(3) by (simp add: window_starts_closed [OF assms(1)])
  moreover have "nat (int k * step) = k * nat step"
    by (simp add: nat_mult_distrib)
  moreover have "0 \<le> int k * step" using assms(1) by simp
  ultimately show ?thesis
    using assms(2,3)
    by (simp add: nth_enumerate_eq window_chunk_def js_slice_window)
qed

text \<open>
  Claim C2, amended. For \<open>0 \<le> chunkSize\<close>, \<open>overlap < chunkSize\<close> and a document
  that is one paragraph of length \<open>L > chunkSize\<close>, the call returns
  \<open>ceil(L / (chunkSize - overlap))\<close> windows; window \<open>k\<close> starts at
  \<open>k * (chunkSize - overlap)\<close>, is the next \<open>chunkSize\<close> characters from there (fewer
  at the end of the paragraph) and so has at most \<open>chunkSize\<close> characters. For
  \<open>0 \<le> overlap\<close>, what window \<open>k\<close> holds beyond the step is the beginning of window
  \<open>k + 1\<close>, up to \<open>overlap\<close> characters; these are exactly \<open>overlap\<close> characters
  when window \<open>k\<close> has its full length.
\<close>

theorem fallback_windows:
  assumes "paragraphs_of (trim (text_d doc)) = [para]"
    and "chunkSize < int (length para)" and "0 \<le> chunkSize" and "overlap < chunkSize"
  shows "\<exists>ws. chunkDocuments [doc] chunkSize overlap = Some ws \<and>
     int (length ws) = \<lceil>real (length para) / real_of_int (chunkSize - overlap)\<rceil> \<and>
     (\<forall>k<length ws.
        startChar (ws ! k) = int k * (chunkSize - overlap) \<and>
        text_c (ws ! k) = take (nat chunkSize) (drop (k * nat (chunkSize - overlap)) para) \<and>
        int (length (text_c (ws ! k))) \<le> chunkSize) \<and>
     (0 \<le> overlap \<longrightarrow>
        (\<forall>k. Suc k < length ws \<longrightarrow>
           drop (nat (chunkSize - overlap)) (text_c (ws ! k)) =
             take (nat overlap) (text_c (ws ! Suc k)) \<and>
           (int k * (chunkSize - overlap) + chunkSize \<le> int (length para) \<longrightarrow>
              length (take (nat overlap) (text_c (ws ! Suc k))) = nat overlap)))"
proof -
  let ?step = "chunkSize - overlap"
  let ?ws = "map (window_chunk chunkSize 0 (name doc) para 0)
               (enumerate 0 (window_starts ?step (int (length para)) 0))"
  have step: "0 < ?step" using assms(4) by simp
  have res: "chunkDocuments [doc] chunkSize overlap = Some ?ws"
    using chunkDocuments_single_paragraph [OF assms(1,2), of overlap] step by simp
  have len: "length ?ws = length (window_starts ?step (int (length para)) 0)" by simp
  have nth: "\<And>k. k < length ?ws \<Longrightarrow> ?ws ! k =
     \<lparr> id_c = 0 + k, text_c = take (nat chunkSize) (drop (k * nat ?step) para),
       docIndex = 0, docName = name doc, startChar = 0 + int k * ?step \<rparr>"
    by (rule window_chunk_nth [OF step assms(3)]) simp
  have cnt: "int (length ?ws) = \<lceil>real (length para) / real_of_int ?step\<rceil>"
    unfolding len by (rule window_count [OF step])
  have each: "\<forall>k<length ?ws.
        startChar (?ws ! k) = int k * ?step \<and>
        text_c (?ws ! k) = take (nat chunkSize) (drop (k * nat ?step) para) \<and>
        int (length (text_c (?ws ! k))) \<le> chunkSize"
    using assms(3) by (auto simp: nth simp del: length_map)
  have share: "0 \<le> overlap \<longrightarrow>
        (\<forall>k. Suc k < length ?ws \<longrightarrow>
           drop (nat ?step) (text_c (?ws ! k)) = take (nat overlap) (text_c (?ws ! Suc k)) \<and>
           (int k * ?step + chunkSize \<le> int (length para) \<longrightarrow>
              length (take (nat overlap) (text_c (?ws ! Suc k))) = nat overlap))"
  proof (intro impI allI)
    fix k assume ov: "0 \<le> overlap" and k: "Suc k < length ?ws"
    then have k': "k < length ?ws" by simp
    have c: "nat chunkSize = nat ?step + nat overlap" using ov step by simp
    have a: "drop (nat ?step) (text_c (?ws ! k)) =
             take (nat overlap) (drop (Suc k * nat ?step) para)"
      by (simp add: nth [OF k'] drop_take c add.commute)
    have b: "take (nat overlap) (text_c (?ws ! Suc k)) =
             take (nat overlap) (drop (Suc k * nat ?step) para)"
      by (simp add: nth [OF k] c min_def)
    have l: "int k * ?step + chunkSize \<le> int (length para) \<longrightarrow>
              length (take (nat overlap) (text_c (?ws ! Suc k))) = nat overlap"
    proof
      assume "int k * ?step + chunkSize \<le> int (length para)"
      then have "int (k * nat ?step + nat ?step + nat overlap) \<le> int (length para)"
        using ov step by (simp add: nat_mult_distrib algebra_simps)
      then have "k * nat ?step + nat ?step + nat overlap \<le> length para" by linarith
      then show "length (take (nat overlap) (text_c (?ws ! Suc k))) = nat overlap"
        unfolding b by simp
    qed
    show "drop (nat ?step) (text_c (?ws ! k)) = take (nat overlap) (text_c (?ws ! Suc k)) \<and>
           (int k * ?step + chunkSize \<le> int (length para) \<longrightarrow>
              length (take (nat overlap) (text_c (?ws ! Suc k))) = nat overlap)"
      using a b l by simp
  qed
  from res cnt each share show ?thesis by blast
qed

text \<open>The theorem at the ten-character paragraph, \<open>chunkSize = 4\<close>, \<open>overlap = 1\<close>.\<close>

theorem fallback_windows_witness:
  "paragraphs_of (trim (text_d ex_doc)) = [''abcdefghij''] \<and>
   (4::int) < int (length ''abcdefghij'') \<and> (0::int) \<le> 4 \<and> (1::int) < 4 \<and> (0::int) \<le> 1 \<and>
   (\<exists>ws. chunkDocuments [ex_doc] 4 1 = Some ws \<and> int (length ws) = 4 \<and>
         text_c (ws ! 0) = ''abcd'' \<and> text_c (ws ! 1) = ''defg'' \<and>
         drop 3 (text_c (ws ! 0)) = take 1 (text_c (ws ! 1)))"
proof -
  have h: "(4::int) < int (length ''abcdefghij'')" "(0::int) \<le> 4" "(1::int) < 4" by simp_all
  from fallback_windows [OF ex_doc_paragraphs h]
  obtain ws where ws: "chunkDocuments [ex_doc] 4 1 = Some ws"
    and n: "int (length ws) = \<lceil>real (length ''abcdefghij'') / real_of_int (4 - 1)\<rceil>"
    and each: "\<forall>k<length ws. startChar (ws ! k) = int k * (4 - 1) \<and>
        text_c (ws ! k) = take (nat 4) (drop (k * nat (4 - 1)) ''abcdefghij'') \<and>
        int (length (text_c (ws ! k))) \<le> 4"
    and share: "0 \<le> (1::int) \<longrightarrow>
        (\<forall>k. Suc k < length ws \<longrightarrow>
           drop (nat (4 - 1)) (text_c (ws ! k)) = take (nat 1) (text_c (ws ! Suc k)) \<and>
           (int k * (4 - 1) + 4 \<le> int (length ''abcdefghij'') \<longrightarrow>
              length (take (nat 1) (text_c (ws ! Suc k))) = nat 1))"
    by blast
  have n4: "int (length ws) = 4" using n by simp
  then have l: "0 < length ws" "1 < length ws" "Suc 0 < length ws" by linarith+
  have t0: "text_c (ws ! 0) = ''abcd''" using each l(1) by simp
  have t1: "text_c (ws ! 1) = ''defg''" using each l(2) by (simp add: numeral_3_eq_3)
  have sh: "drop 3 (text_c (ws ! 0)) = take 1 (text_c (ws ! 1))"
    using share l(3) by (simp add: numeral_3_eq_3)
  show ?thesis using ex_doc_paragraphs ws n4 t0 t1 sh by auto
qed

text \<open>
  Claim C2 as stated fails at its own example: a 1000-character paragraph with
  \<open>chunkSize = 400\<close> and \<open>overlap = 80\<close> gives four windows (starting at 0, 320, 640
  and 960), not \<open>ceil((1000 - 80) / 320) = 3\<close>.
\<close>

theorem fallback_windows_counterexample:
  "map_option length
     (chunkDocuments [\<lparr> name = ''X'', text_d = replicate 1000 (CHR ''a'') \<rparr>] 400 80) = Some 4 \<and>
   \<lceil>(1000 - 80) / (400 - 80) :: real\<rceil> = 3"
proof -
  let ?p = "replicate 1000 (CHR ''a'')"
  have "paragraphs_of (trim (text_d \<lparr> name = ''X'', text_d = ?p \<rparr>)) = [?p]"
    using paragraphs_of_plain(2) [of ?p] by (simp add: is_space_def)
  from chunkDocuments_single_paragraph [OF this, of 400 80]
  have "map_option length (chunkDocuments [\<lparr> name = ''X'', text_d = ?p \<rparr>] 400 80) =
      Some (length (window_starts 320 1000 0))"
    by simp
  moreover have "length (window_starts 320 1000 0) = 4"
    by (simp add: window_starts_closed)
  moreover have "\<lceil>(1000 - 80) / (400 - 80) :: real\<rceil> = 3"
    by (simp add: ceiling_eq_iff)
  ultimately show ?thesis by simp
qed

section \<open>The paragraph loop and the document loop\<close>

lemma sep_length [simp]: "length sep = 2"
  by (simp add: sep_def)

lemma para_step_cases:
  assumes "para_step chunkSize overlap di dn para st = Some st'" and "para \<noteq> []"
  obtains
    (append) "currentChunk st \<noteq> []"
      "int (length (currentChunk st)) + 2 + int (length para) \<le> chunkSize"
      "chunks st' = chunks st" "globalId st' = globalId st"
      "currentChunk st' = currentChunk st @ sep @ para" "currentStart st' = currentStart st"
      "charPos st' = charPos st + (int (length para) + 2)"
  | (start) "currentChunk st = []" "int (length para) \<le> chunkSize"
      "chunks st' = chunks st" "globalId st' = globalId st"
      "currentChunk st' = para" "currentStart st' = charPos st"
      "charPos st' = charPos st + (int (length para) + 2)"
  | (restart) "currentChunk st \<noteq> []" "int (length para) \<le> chunkSize"
      "chunkSize < int (length (currentChunk st)) + 2 + int (length para)"
      "chunks st' = chunks st @ flushed di dn st"
      "globalId st' = globalId st + 1"
      "currentChunk st' = para" "currentStart st' = charPos st"
      "charPos st' = charPos st + (int (length para) + 2)"
  | (fallback) "chunkSize < int (length para)" "0 < chunkSize - overlap"
      "chunks st' = chunks st @ flushed di dn st @
         map (window_chunk chunkSize di dn para (charPos st))
           (enumerate (globalId st + length (flushed di dn st))
              (window_starts (chunkSize - overlap) (int (length para)) 0))"
      "globalId st' = globalId st + length (flushed di dn st) +
         length (window_starts (chunkSize - overlap) (int (length para)) 0)"
      "currentChunk st' = []" "currentStart st' = charPos st + int (length para)"
      "charPos st' = charPos st + (int (length para) + 2)"
proof -
  have pos: "0 < int (length para)" using assms(2) by simp
  show thesis
  proof (cases "chunkSize < int (length para)")
    case long: True
    show thesis
    proof (cases "0 < chunkSize - overlap")
      case True
      show thesis
      proof (rule fallback [OF long True])
        show "chunks st' = chunks st @ flushed di dn st @
           map (window_chunk chunkSize di dn para (charPos st))
             (enumerate (globalId st + length (flushed di dn st))
                (window_starts (chunkSize - overlap) (int (length para)) 0))"
          using assms(1) long True pos
          by (auto simp: para_step_def Let_def split_loop_eq fold_push_window flushed_def
              push_chunk_def split: if_splits)
        show "globalId st' = globalId st + length (flushed di dn st) +
           length (window_starts (chunkSize - overlap) (int (length para)) 0)"
          using assms(1) long True pos
          by (auto simp: para_step_def Let_def split_loop_eq fold_push_window flushed_def
              push_chunk_def split: if_splits)
        show "currentChunk st' = []"
          using assms(1) long True pos
          by (auto simp: para_step_def Let_def split_loop_eq fold_push_window flushed_def
              push_chunk_def split: if_splits)
        show "currentStart st' = charPos st + int (length para)"
          using assms(1) long True pos
          by (auto simp: para_step_def Let_def split_loop_eq fold_push_window flushed_def
              push_chunk_def split: if_splits)
        show "charPos st' = charPos st + (int (length para) + 2)"
          using assms(1) long True pos
          by (auto simp: para_step_def Let_def split_loop_eq fold_push_window flushed_def
              push_chunk_def split: if_splits)
      qed
    next
      case False
      with assms(1) long pos have False
        by (auto simp: para_step_def Let_def split_loop_eq split: if_splits)
      then show thesis ..
    qed
  next
    case short: False
    show thesis
    proof (cases "currentChunk st = []")
      case True
      show thesis
        by (rule start [OF True])
           (use assms(1) short True in \<open>auto simp: para_step_def Let_def\<close>)
    next
      case ne: False
      show thesis
      proof (cases "int (length (currentChunk st)) + 2 + int (length para) \<le> chunkSize")
        case True
        show thesis
          by (rule append [OF ne True])
             (use assms(1) short ne True in \<open>auto simp: para_step_def Let_def sep_def\<close>)
      next
        case False
        show thesis
          by (rule restart [OF ne])
             (use assms(1) short ne False in
               \<open>auto simp: para_step_def Let_def flushed_def push_chunk_def\<close>)
      qed
    qed
  qed
qed

lemma inside_extend: "inside t s Q \<Longrightarrow> inside t s (Q @ para @ sep)"
proof -
  assume "inside t s Q"
  then obtain pre post where "Q = pre @ t @ post @ sep" "int (length pre) = s"
    by (auto simp: inside_def)
  then have "Q @ para @ sep = pre @ t @ (post @ sep @ para) @ sep \<and> int (length pre) = s"
    by simp
  then show ?thesis unfolding inside_def by blast
qed

lemma at_end_inside: "at_end t s Q \<Longrightarrow> inside t s Q"
  unfolding at_end_def inside_def by (metis append_Nil)

lemma at_end_bounds:
  "at_end t s Q \<Longrightarrow> 0 \<le> s \<and> s + int (length t) + 2 = int (length Q)"
  by (auto simp: at_end_def)

lemma at_end_new: "at_end para (int (length Q)) (Q @ para @ sep)"
  by (auto simp: at_end_def)

lemma at_end_append: "at_end t s Q \<Longrightarrow> at_end (t @ sep @ para) s (Q @ para @ sep)"
  by (auto simp: at_end_def)

lemma js_slice_split:
  assumes "0 \<le> p" "p \<le> int (length xs)"
  shows "\<exists>post. xs = take (nat p) xs @ js_slice xs p e @ post"
proof -
  have "slice_bound (length xs) p = nat p" using assms by (simp add: slice_bound_def)
  then obtain n where "js_slice xs p e = take n (drop (nat p) xs)"
    by (simp add: js_slice_def Let_def)
  then have "xs = take (nat p) xs @ js_slice xs p e @ drop n (drop (nat p) xs)"
    by (metis append_take_drop_id)
  then show ?thesis ..
qed

lemma window_inside:
  assumes "0 \<le> p" "p \<le> int (length para)"
  shows "inside (js_slice para p e) (int (length Q) + p) (Q @ para @ sep)"
proof -
  from js_slice_split [OF assms] obtain post where
    "para = take (nat p) para @ js_slice para p e @ post" ..
  then have "Q @ para @ sep = (Q @ take (nat p) para) @ js_slice para p e @ post @ sep"
    by (metis append.assoc)
  moreover have "int (length (Q @ take (nat p) para)) = int (length Q) + p"
    using assms by simp
  ultimately show ?thesis unfolding inside_def by blast
qed

lemma window_starts_bounds:
  "p \<in> set (window_starts step len pos) \<Longrightarrow> pos \<le> p \<and> p < len"
proof (induction step len pos rule: window_starts.induct)
  case (1 step len pos)
  from 1(2) have c: "0 < step \<and> pos < len"
    by (subst (asm) window_starts.simps) (auto split: if_splits)
  with 1(2) have "p = pos \<or> p \<in> set (window_starts step len (pos + step))"
    by (subst (asm) window_starts.simps) auto
  then show ?case
  proof
    assume "p = pos" with c show ?thesis by simp
  next
    assume "p \<in> set (window_starts step len (pos + step))"
    from 1(1) [OF c this] c show ?thesis by simp
  qed
qed

lemma window_starts_sorted: "sorted (window_starts step len pos)"
proof (induction step len pos rule: window_starts.induct)
  case (1 step len pos)
  show ?case
  proof (cases "0 < step \<and> pos < len")
    case True
    have "\<forall>p\<in>set (window_starts step len (pos + step)). pos \<le> p"
      using window_starts_bounds [of _ step len "pos + step"] True by fastforce
    with 1 [OF True] True show ?thesis
      by (subst window_starts.simps) simp
  next
    case False
    then show ?thesis by (subst window_starts.simps) auto
  qed
qed

lemma window_starts_cover:
  "0 < step \<Longrightarrow> pos \<le> i \<Longrightarrow> i < len \<Longrightarrow>
   \<exists>p\<in>set (window_starts step len pos). p \<le> i \<and> i < p + step"
proof (induction step len pos rule: window_starts.induct)
  case (1 step len pos)
  have c: "0 < step \<and> pos < len" using 1(2-4) by simp
  show ?case
  proof (cases "i < pos + step")
    case True
    with c 1(3) show ?thesis by (subst window_starts.simps) auto
  next
    case False
    then have "pos + step \<le> i" by simp
    from 1(1) [OF c 1(2) this 1(4)] c show ?thesis
      by (subst window_starts.simps) auto
  qed
qed

lemma window_chunks_set:
  "c \<in> set (map (window_chunk chunkSize di dn para cp) (enumerate g ps)) \<Longrightarrow>
   \<exists>p\<in>set ps. startChar c = cp + p \<and> text_c c = js_slice para p (p + chunkSize) \<and>
               docIndex c = di \<and> docName c = dn"
  by (auto simp: window_chunk_def in_set_enumerate_eq)

lemma window_chunks_startChar:
  "map startChar (map (window_chunk chunkSize di dn para cp) (enumerate g ps)) = map ((+) cp) ps"
  by (induction ps arbitrary: g) (simp_all add: window_chunk_def)

lemma window_chunks_ids:
  "map id_c (map (window_chunk chunkSize di dn para cp) (enumerate g ps)) = [g..<g + length ps]"
proof -
  have "id_c \<circ> window_chunk chunkSize di dn para cp = fst"
    by (auto simp: window_chunk_def fun_eq_iff)
  then show ?thesis by (simp add: map_fst_enumerate)
qed

lemma flushed_set:
  "c \<in> set (flushed di dn st) \<Longrightarrow>
   currentChunk st \<noteq> [] \<and> startChar c = currentStart st \<and> text_c c = currentChunk st \<and>
   docIndex c = di \<and> docName c = dn \<and> id_c c = globalId st"
  by (auto simp: flushed_def split: if_splits)

lemma inv_pos_step:
  assumes inv: "inv_pos Q st"
    and ch: "chunks st' = chunks st @ new"
    and cp: "charPos st' = int (length (Q @ para @ sep))"
    and new: "\<And>c. c \<in> set new \<Longrightarrow>
        inside (text_c c) (startChar c) (Q @ para @ sep) \<and>
        front st \<le> startChar c \<and> startChar c \<le> front st'"
    and srt: "sorted (map startChar new)"
    and fr: "front st \<le> front st'"
    and buf: "currentChunk st' \<noteq> [] \<Longrightarrow>
        at_end (currentChunk st') (currentStart st') (Q @ para @ sep)"
  shows "inv_pos (Q @ para @ sep) st'"
  unfolding inv_pos_def
proof (intro conjI ballI impI)
  show "charPos st' = int (length (Q @ para @ sep))" by (rule cp)
next
  fix c assume "c \<in> set (chunks st')"
  then consider "c \<in> set (chunks st)" | "c \<in> set new" by (auto simp: ch)
  then show "inside (text_c c) (startChar c) (Q @ para @ sep)"
  proof cases
    case 1
    with inv have "inside (text_c c) (startChar c) Q" by (simp add: inv_pos_def)
    then show ?thesis by (rule inside_extend)
  next
    case 2
    then show ?thesis using new by blast
  qed
next
  fix c assume "c \<in> set (chunks st')"
  then consider "c \<in> set (chunks st)" | "c \<in> set new" by (auto simp: ch)
  then show "startChar c \<le> front st'"
  proof cases
    case 1
    with inv have "startChar c \<le> front st" by (simp add: inv_pos_def)
    with fr show ?thesis by simp
  next
    case 2
    then show ?thesis using new by blast
  qed
next
  have "sorted (map startChar (chunks st))" using inv by (simp add: inv_pos_def)
  moreover have "\<forall>x\<in>set (chunks st). \<forall>y\<in>set new. startChar x \<le> startChar y"
  proof (intro ballI)
    fix x y assume "x \<in> set (chunks st)" "y \<in> set new"
    then have "startChar x \<le> front st" "front st \<le> startChar y"
      using inv new by (simp_all add: inv_pos_def)
    then show "startChar x \<le> startChar y" by simp
  qed
  ultimately show "sorted (map startChar (chunks st'))"
    using srt by (simp add: ch sorted_append)
next
  assume "currentChunk st' \<noteq> []"
  then show "at_end (currentChunk st') (currentStart st') (Q @ para @ sep)" by (rule buf)
qed

lemma inv_pos_buffer:
  assumes "inv_pos Q st" "currentChunk st \<noteq> []"
  shows "at_end (currentChunk st) (currentStart st) Q"
    and "front st = currentStart st"
    and "0 \<le> currentStart st"
    and "currentStart st + int (length (currentChunk st)) + 2 = charPos st"
  using assms at_end_bounds [of "currentChunk st" "currentStart st" Q]
  by (simp_all add: inv_pos_def front_def)

lemma flushed_inv:
  assumes inv: "inv_pos Q st" and c: "c \<in> set (flushed di dn st)"
  shows "inside (text_c c) (startChar c) (Q @ para @ sep) \<and>
         front st \<le> startChar c \<and> startChar c \<le> charPos st"
proof -
  from flushed_set [OF c] have ne: "currentChunk st \<noteq> []"
    and s: "startChar c = currentStart st" and t: "text_c c = currentChunk st" by simp_all
  note b = inv_pos_buffer [OF inv ne]
  have "inside (text_c c) (startChar c) (Q @ para @ sep)"
    unfolding s t by (rule inside_extend [OF at_end_inside [OF b(1)]])
  moreover have "front st \<le> startChar c" by (simp add: s b(2))
  moreover have "startChar c \<le> charPos st" using b(4) by (simp add: s)
  ultimately show ?thesis by simp
qed

lemma front_le_charPos: "inv_pos Q st \<Longrightarrow> front st \<le> charPos st"
  using inv_pos_buffer(2,4) [of Q st] by (cases "currentChunk st = []") (auto simp: front_def)

lemma para_step_inv_pos:
  assumes step: "para_step chunkSize overlap di dn para st = Some st'" and ne: "para \<noteq> []"
    and inv: "inv_pos Q st"
  shows "inv_pos (Q @ para @ sep) st'"
  using step ne
proof (cases rule: para_step_cases)
  case append
  note b = inv_pos_buffer [OF inv append(1)]
  show ?thesis
  proof (rule inv_pos_step [OF inv, where new = "[]"])
    show "charPos st' = int (length (Q @ para @ sep))"
      using inv by (simp add: append inv_pos_def)
    show "front st \<le> front st'" by (simp add: front_def append)
    show "at_end (currentChunk st') (currentStart st') (Q @ para @ sep)"
      unfolding append by (rule at_end_append [OF b(1)])
  qed (simp_all add: append)
next
  case start
  have cp: "charPos st = int (length Q)" using inv by (simp add: inv_pos_def)
  show ?thesis
  proof (rule inv_pos_step [OF inv, where new = "[]"])
    show "charPos st' = int (length (Q @ para @ sep))" by (simp add: start cp)
    show "front st \<le> front st'" using ne by (simp add: front_def start)
    show "at_end (currentChunk st') (currentStart st') (Q @ para @ sep)"
      unfolding start cp by (rule at_end_new)
  qed (simp_all add: start)
next
  case restart
  have cp: "charPos st = int (length Q)" using inv by (simp add: inv_pos_def)
  have fr': "front st' = charPos st" using ne by (simp add: front_def restart)
  show ?thesis
  proof (rule inv_pos_step [OF inv, where new = "flushed di dn st"])
    show "chunks st' = chunks st @ flushed di dn st" by (rule restart)
    show "charPos st' = int (length (Q @ para @ sep))" by (simp add: restart cp)
    show "sorted (map startChar (flushed di dn st))" by (simp add: flushed_def)
    show "front st \<le> front st'" unfolding fr' by (rule front_le_charPos [OF inv])
    show "at_end (currentChunk st') (currentStart st') (Q @ para @ sep)"
      unfolding restart cp by (rule at_end_new)
    fix c assume "c \<in> set (flushed di dn st)"
    from flushed_inv [OF inv this, of para]
    show "inside (text_c c) (startChar c) (Q @ para @ sep) \<and>
        front st \<le> startChar c \<and> startChar c \<le> front st'"
      by (simp add: fr')
  qed
next
  case fallback
  have cp: "charPos st = int (length Q)" using inv by (simp add: inv_pos_def)
  have fr': "front st' = charPos st + (int (length para) + 2)"
    by (simp add: front_def fallback)
  let ?ws = "window_starts (chunkSize - overlap) (int (length para)) 0"
  let ?wc = "map (window_chunk chunkSize di dn para (charPos st))
           (enumerate (globalId st + length (flushed di dn st)) ?ws)"
  have wprops: "\<And>c. c \<in> set ?wc \<Longrightarrow>
      inside (text_c c) (startChar c) (Q @ para @ sep) \<and>
      charPos st \<le> startChar c \<and> startChar c \<le> front st'"
  proof -
    fix c assume "c \<in> set ?wc"
    from window_chunks_set [OF this] obtain p where p: "p \<in> set ?ws"
      and s: "startChar c = charPos st + p" and t: "text_c c = js_slice para p (p + chunkSize)"
      by blast
    from window_starts_bounds [OF p] have pb: "0 \<le> p" "p < int (length para)" by simp_all
    then have "inside (js_slice para p (p + chunkSize)) (int (length Q) + p) (Q @ para @ sep)"
      by (intro window_inside) simp_all
    then show "inside (text_c c) (startChar c) (Q @ para @ sep) \<and>
      charPos st \<le> startChar c \<and> startChar c \<le> front st'"
      using pb by (simp add: s t cp fr')
  qed
  show ?thesis
  proof (rule inv_pos_step [OF inv, where new = "flushed di dn st @ ?wc"])
    show "chunks st' = chunks st @ flushed di dn st @ ?wc" by (rule fallback)
    show "charPos st' = int (length (Q @ para @ sep))" by (simp add: fallback cp)
    show "front st \<le> front st'"
      unfolding fr' using front_le_charPos [OF inv] by simp
    show "currentChunk st' \<noteq> [] \<Longrightarrow>
        at_end (currentChunk st') (currentStart st') (Q @ para @ sep)"
      by (simp add: fallback)
    show "sorted (map startChar (flushed di dn st @ ?wc))"
    proof -
      have "sorted (map startChar ?wc)"
        unfolding window_chunks_startChar
        by (simp add: sorted_map window_starts_sorted [unfolded sorted_wrt_iff_nth_less] sorted_wrt_iff_nth_less)
      moreover have "\<forall>x\<in>set (flushed di dn st). \<forall>y\<in>set ?wc. startChar x \<le> startChar y"
      proof (intro ballI)
        fix x y assume "x \<in> set (flushed di dn st)" "y \<in> set ?wc"
        then have "startChar x \<le> charPos st" "charPos st \<le> startChar y"
          using flushed_inv [OF inv, of _ di dn para] wprops by blast+
        then show "startChar x \<le> startChar y" by simp
      qed
      moreover have "sorted (map startChar (flushed di dn st))" by (simp add: flushed_def)
      ultimately show ?thesis by (simp add: sorted_append del: map_map)
    qed
    fix c assume "c \<in> set (flushed di dn st @ ?wc)"
    then consider "c \<in> set (flushed di dn st)" | "c \<in> set ?wc" by auto
    then show "inside (text_c c) (startChar c) (Q @ para @ sep) \<and>
        front st \<le> startChar c \<and> startChar c \<le> front st'"
    proof cases
      case 1
      from flushed_inv [OF inv 1, of para] show ?thesis by (simp add: fr')
    next
      case 2
      from wprops [OF 2] front_le_charPos [OF inv] show ?thesis by simp
    qed
  qed
qed

lemma upt_split: "[a..<a + m] @ [a + m..<a + m + n] = [a..<a + (m + n)]"
  using upt_add_eq_append [of a "a + m" n] by (simp add: add.assoc)

lemma flushed_ids: "map id_c (flushed di dn st) = [globalId st..<globalId st + length (flushed di dn st)]"
  by (simp add: flushed_def)

lemma inv_ids_step:
  assumes inv: "inv_ids g di dn st"
    and ch: "chunks st' = chunks st @ new"
    and gid: "globalId st' = globalId st + length new"
    and ids: "map id_c new = [globalId st..<globalId st + length new]"
    and doc: "\<And>c. c \<in> set new \<Longrightarrow> docIndex c = di \<and> docName c = dn"
  shows "inv_ids g di dn st'"
proof -
  from inv have g: "globalId st = g + length (chunks st)"
    and m: "map id_c (chunks st) = [g..<g + length (chunks st)]"
    and d: "\<forall>c\<in>set (chunks st). docIndex c = di \<and> docName c = dn"
    by (simp_all add: inv_ids_def)
  have "map id_c (chunks st') = [g..<g + length (chunks st)] @
      [g + length (chunks st)..<g + length (chunks st) + length new]"
    using m ids by (simp add: ch g)
  also have "\<dots> = [g..<g + length (chunks st')]"
    by (simp add: ch upt_split)
  finally have "map id_c (chunks st') = [g..<g + length (chunks st')]" .
  moreover have "globalId st' = g + length (chunks st')" by (simp add: gid g ch)
  moreover have "\<forall>c\<in>set (chunks st'). docIndex c = di \<and> docName c = dn"
    using d doc by (auto simp: ch)
  ultimately show ?thesis by (simp add: inv_ids_def)
qed

lemma para_step_inv_ids:
  assumes step: "para_step chunkSize overlap di dn para st = Some st'" and ne: "para \<noteq> []"
    and inv: "inv_ids g di dn st"
  shows "inv_ids g di dn st'"
  using step ne
proof (cases rule: para_step_cases)
  case append
  show ?thesis by (rule inv_ids_step [OF inv, where new = "[]"]) (simp_all add: append)
next
  case start
  show ?thesis by (rule inv_ids_step [OF inv, where new = "[]"]) (simp_all add: start)
next
  case restart
  show ?thesis
  proof (rule inv_ids_step [OF inv, where new = "flushed di dn st"])
    show "globalId st' = globalId st + length (flushed di dn st)"
      using restart(1) by (simp add: restart flushed_def)
  qed (use restart flushed_ids flushed_set in auto)
next
  case fallback
  let ?ws = "window_starts (chunkSize - overlap) (int (length para)) 0"
  let ?wc = "map (window_chunk chunkSize di dn para (charPos st))
           (enumerate (globalId st + length (flushed di dn st)) ?ws)"
  show ?thesis
  proof (rule inv_ids_step [OF inv, where new = "flushed di dn st @ ?wc"])
    show "chunks st' = chunks st @ flushed di dn st @ ?wc" by (rule fallback)
    show "globalId st' = globalId st + length (flushed di dn st @ ?wc)"
      by (simp add: fallback)
    have "map id_c (flushed di dn st @ ?wc) =
        [globalId st..<globalId st + length (flushed di dn st)] @
        [globalId st + length (flushed di dn st)..<
           globalId st + length (flushed di dn st) + length ?ws]"
      using flushed_ids [of di dn st] window_chunks_ids [of chunkSize di dn para "charPos st"
          "globalId st + length (flushed di dn st)" ?ws]
      by (simp del: map_map)
    also have "\<dots> = [globalId st..<globalId st + length (flushed di dn st @ ?wc)]"
      by (simp add: upt_split)
    finally show "map id_c (flushed di dn st @ ?wc) =
        [globalId st..<globalId st + length (flushed di dn st @ ?wc)]" .
    fix c assume "c \<in> set (flushed di dn st @ ?wc)"
    then show "docIndex c = di \<and> docName c = dn"
      using flushed_set [of c di dn st] window_chunks_set [of c chunkSize di dn para "charPos st"
          "globalId st + length (flushed di dn st)" ?ws]
      by auto
  qed
qed

lemma window_length:
  assumes "0 \<le> p" "0 \<le> chunkSize"
  shows "int (length (js_slice para p (p + chunkSize))) \<le> chunkSize"
  using assms by (simp add: js_slice_window)

lemma para_step_inv_size:
  assumes step: "para_step chunkSize overlap di dn para st = Some st'" and ne: "para \<noteq> []"
    and cs: "0 \<le> chunkSize"
    and inv: "inv_size chunkSize st"
  shows "inv_size chunkSize st'"
  using step ne
proof (cases rule: para_step_cases)
  case append
  then show ?thesis using inv by (simp add: inv_size_def)
next
  case start
  then show ?thesis using inv by (simp add: inv_size_def)
next
  case restart
  then show ?thesis using inv by (auto simp: inv_size_def dest!: flushed_set)
next
  case fallback
  let ?ws = "window_starts (chunkSize - overlap) (int (length para)) 0"
  have "\<And>c. c \<in> set (map (window_chunk chunkSize di dn para (charPos st))
           (enumerate (globalId st + length (flushed di dn st)) ?ws)) \<Longrightarrow>
         int (length (text_c c)) \<le> chunkSize"
  proof -
    fix c assume "c \<in> set (map (window_chunk chunkSize di dn para (charPos st))
           (enumerate (globalId st + length (flushed di dn st)) ?ws))"
    from window_chunks_set [OF this] obtain p where p: "p \<in> set ?ws"
      and t: "text_c c = js_slice para p (p + chunkSize)" by blast
    from window_starts_bounds [OF p] have "0 \<le> p" by simp
    then show "int (length (text_c c)) \<le> chunkSize"
      unfolding t using cs by (rule window_length)
  qed
  then show ?thesis
    using inv fallback by (auto simp: inv_size_def dest!: flushed_set)
qed

lemma sep_nth: "i < 2 \<Longrightarrow> sep ! i = CHR 0x0A"
  by (cases i) (simp_all add: sep_def)

lemma at_end_tail:
  assumes "at_end t s Q" "s + int (length t) \<le> int j" "j < length Q"
  shows "Q ! j = CHR 0x0A"
proof -
  from assms(1) obtain pre where Q: "Q = pre @ t @ sep" and s: "int (length pre) = s"
    by (auto simp: at_end_def)
  have "length pre + length t \<le> j" using assms(2) s by linarith
  moreover have "j < length pre + length t + 2" using assms(3) by (simp add: Q)
  ultimately have "Q ! j = sep ! (j - (length pre + length t))"
    using nth_append [of "pre @ t" sep j] by (simp add: Q)
  moreover have "j - (length pre + length t) < 2"
    using \<open>j < length pre + length t + 2\<close> \<open>length pre + length t \<le> j\<close> by linarith
  ultimately show ?thesis by (simp add: sep_nth)
qed

lemma old_offset_cases:
  assumes pos: "inv_pos Q st" and cov: "inv_cov Q st" and j: "j < length Q"
  obtains (lf) "Q ! j = CHR 0x0A"
  | (chunk) c where "c \<in> set (chunks st)" "covers c j"
  | (buf) "currentChunk st \<noteq> []" "currentStart st \<le> int j"
      "int j < currentStart st + int (length (currentChunk st))"
proof -
  from cov j have "Q ! j = CHR 0x0A \<or> covered st j" by (simp add: inv_cov_def)
  then consider "Q ! j = CHR 0x0A" | "\<exists>c\<in>set (chunks st). covers c j"
    | "currentChunk st \<noteq> [] \<and> currentStart st \<le> int j"
    by (auto simp: covered_def)
  then show thesis
  proof cases
    case 1 then show ?thesis by (rule lf)
  next
    case 2 then show ?thesis using chunk by blast
  next
    case 3
    show ?thesis
    proof (cases "int j < currentStart st + int (length (currentChunk st))")
      case True
      with 3 show ?thesis using buf by blast
    next
      case False
      then have "currentStart st + int (length (currentChunk st)) \<le> int j" by simp
      from at_end_tail [OF inv_pos_buffer(1) [OF pos] this j] 3
      show ?thesis using lf by blast
    qed
  qed
qed

lemma flushed_covers:
  assumes "currentChunk st \<noteq> []" "currentStart st \<le> int j"
    "int j < currentStart st + int (length (currentChunk st))"
  shows "\<exists>c\<in>set (flushed di dn st). covers c j"
  using assms by (simp add: flushed_def covers_def)

lemma window_covers:
  assumes step: "0 < chunkSize - overlap" and ov: "0 \<le> overlap" and i: "i < length para"
  shows "\<exists>c\<in>set (map (window_chunk chunkSize di dn para cp)
                   (enumerate g (window_starts (chunkSize - overlap) (int (length para)) 0))).
           startChar c \<le> cp + int i \<and> cp + int i < startChar c + int (length (text_c c))"
proof -
  let ?ws = "window_starts (chunkSize - overlap) (int (length para)) 0"
  from window_starts_cover [OF step, of 0 "int i" "int (length para)"] i
  obtain p where p: "p \<in> set ?ws" and le: "p \<le> int i" and lt: "int i < p + (chunkSize - overlap)"
    by auto
  from window_starts_bounds [OF p] have pb: "0 \<le> p" by simp
  have cs: "0 \<le> chunkSize" using step ov by simp
  obtain k where k: "k < length ?ws" "?ws ! k = p" using p by (auto simp: in_set_conv_nth)
  let ?c = "window_chunk chunkSize di dn para cp (g + k, p)"
  have mem: "?c \<in> set (map (window_chunk chunkSize di dn para cp) (enumerate g ?ws))"
    using k by (auto simp: in_set_enumerate_eq image_iff intro!: bexI [of _ "(g + k, p)"])
  have len: "int (length (text_c ?c)) = min chunkSize (int (length para) - p)"
    using pb cs i le by (simp add: window_chunk_def js_slice_window min_def) linarith
  have "startChar ?c \<le> cp + int i" using le by (simp add: window_chunk_def)
  moreover have "cp + int i < startChar ?c + int (length (text_c ?c))"
    unfolding len using lt ov i by (simp add: window_chunk_def min_def)
  ultimately show ?thesis using mem by blast
qed

lemma para_step_chunks_mono:
  assumes "para_step chunkSize overlap di dn para st = Some st'" "para \<noteq> []"
  shows "set (chunks st) \<subseteq> set (chunks st')"
  using assms by (cases rule: para_step_cases) auto

lemma para_step_buffer_kept:
  assumes "para_step chunkSize overlap di dn para st = Some st'" "para \<noteq> []"
    and "currentChunk st \<noteq> []"
  shows "(currentChunk st' \<noteq> [] \<and> currentStart st' = currentStart st) \<or>
         set (flushed di dn st) \<subseteq> set (chunks st')"
  using assms by (cases rule: para_step_cases) auto

lemma para_step_covers_new:
  assumes step: "para_step chunkSize overlap di dn para st = Some st'" and ne: "para \<noteq> []"
    and ov: "0 \<le> overlap" and pos: "inv_pos Q st" and i: "i < length para"
  shows "covered st' (length Q + i)"
proof -
  have cp: "charPos st = int (length Q)" using pos by (simp add: inv_pos_def)
  from step ne show ?thesis
  proof (cases rule: para_step_cases)
    case append
    from inv_pos_buffer(3,4) [OF pos append(1)] cp
    have "currentStart st \<le> int (length Q + i)" by simp
    then show ?thesis by (simp add: covered_def append)
  next
    case start
    then show ?thesis using ne by (simp add: covered_def cp)
  next
    case restart
    then show ?thesis using ne by (simp add: covered_def cp)
  next
    case fallback
    from window_covers [OF fallback(2) ov i, of di dn "charPos st"
        "globalId st + length (flushed di dn st)"]
    show ?thesis
      unfolding covered_def covers_def fallback(3) cp by auto
  qed
qed

lemma para_step_inv_cov:
  assumes step: "para_step chunkSize overlap di dn para st = Some st'" and ne: "para \<noteq> []"
    and ov: "0 \<le> overlap" and pos: "inv_pos Q st" and cov: "inv_cov Q st"
  shows "inv_cov (Q @ para @ sep) st'"
  unfolding inv_cov_def
proof (intro allI impI)
  fix j assume j: "j < length (Q @ para @ sep)"
  consider (old) "j < length Q" | (mid) "length Q \<le> j" "j < length Q + length para"
    | (tail) "length Q + length para \<le> j" by linarith
  then show "(Q @ para @ sep) ! j = CHR 0x0A \<or> covered st' j"
  proof cases
    case tail
    then have "(Q @ para @ sep) ! j = sep ! (j - (length Q + length para))"
      using nth_append [of "Q @ para" sep j] by simp
    moreover have "j - (length Q + length para) < 2" using j tail by simp
    ultimately show ?thesis by (simp add: sep_nth)
  next
    case mid
    then obtain i where i: "j = length Q + i" "i < length para"
      by (metis add_diff_inverse_nat less_diff_conv2 not_less add.commute)
    from para_step_covers_new [OF step ne ov pos i(2)] show ?thesis by (simp add: i(1))
  next
    case old
    then have q: "(Q @ para @ sep) ! j = Q ! j" by (simp add: nth_append)
    from pos cov old show ?thesis
    proof (cases rule: old_offset_cases)
      case lf
      then show ?thesis by (simp add: q)
    next
      case (chunk c)
      then have "c \<in> set (chunks st')" using para_step_chunks_mono [OF step ne] by blast
      with chunk(2) show ?thesis by (auto simp: covered_def)
    next
      case buf
      from para_step_buffer_kept [OF step ne buf(1)] show ?thesis
      proof
        assume "currentChunk st' \<noteq> [] \<and> currentStart st' = currentStart st"
        with buf(2) show ?thesis by (simp add: covered_def)
      next
        assume sub: "set (flushed di dn st) \<subseteq> set (chunks st')"
        from flushed_covers [OF buf, of di dn] obtain c where
          "c \<in> set (flushed di dn st)" "covers c j" by blast
        with sub show ?thesis by (auto simp: covered_def)
      qed
    qed
  qed
qed

lemma para_step_total:
  "overlap < chunkSize \<Longrightarrow> \<exists>st'. para_step chunkSize overlap di dn para st = Some st'"
  by (simp add: para_step_def Let_def split_loop_eq)

lemma para_loop_total:
  "overlap < chunkSize \<Longrightarrow> \<exists>st'. para_loop chunkSize overlap di dn ps st = Some st'"
proof (induction ps arbitrary: st)
  case Nil
  then show ?case by simp
next
  case (Cons p ps)
  from para_step_total [OF Cons.prems, of di dn p st] obtain st1 where
    "para_step chunkSize overlap di dn p st = Some st1" ..
  with Cons.IH [OF Cons.prems, of st1] show ?case by simp
qed

lemma para_loop_inv:
  assumes "para_loop chunkSize overlap di dn ps st = Some st'" and "\<forall>p\<in>set ps. p \<noteq> []"
  shows "inv_pos Q st \<Longrightarrow> inv_pos (Q @ joined ps) st'"
    and "inv_ids g di dn st \<Longrightarrow> inv_ids g di dn st'"
    and "0 \<le> chunkSize \<Longrightarrow> inv_size chunkSize st \<Longrightarrow> inv_size chunkSize st'"
    and "0 \<le> overlap \<Longrightarrow> inv_pos Q st \<Longrightarrow> inv_cov Q st \<Longrightarrow> inv_cov (Q @ joined ps) st'"
  using assms
proof (induction ps arbitrary: st Q)
  case Nil
  { case 1 then show ?case by (simp add: joined_def) }
  { case 2 then show ?case by simp }
  { case 3 then show ?case by simp }
  { case 4 then show ?case by (simp add: joined_def) }
next
  case (Cons p ps)
  { case 1
    then obtain st1 where s1: "para_step chunkSize overlap di dn p st = Some st1"
      and l: "para_loop chunkSize overlap di dn ps st1 = Some st'"
      by (auto split: option.splits)
    from 1 have ne: "p \<noteq> []" and rest: "\<forall>p\<in>set ps. p \<noteq> []" by simp_all
    from Cons.IH(1) [OF para_step_inv_pos [OF s1 ne 1(1)] l rest]
    show ?case by (simp add: joined_def) }
  { case 2
    then obtain st1 where s1: "para_step chunkSize overlap di dn p st = Some st1"
      and l: "para_loop chunkSize overlap di dn ps st1 = Some st'"
      by (auto split: option.splits)
    from 2 have ne: "p \<noteq> []" and rest: "\<forall>p\<in>set ps. p \<noteq> []" by simp_all
    from Cons.IH(2) [OF para_step_inv_ids [OF s1 ne 2(1)] l rest]
    show ?case . }
  { case 3
    then obtain st1 where s1: "para_step chunkSize overlap di dn p st = Some st1"
      and l: "para_loop chunkSize overlap di dn ps st1 = Some st'"
      by (auto split: option.splits)
    from 3 have ne: "p \<noteq> []" and rest: "\<forall>p\<in>set ps. p \<noteq> []" by simp_all
    from Cons.IH(3) [OF 3(1) para_step_inv_size [OF s1 ne 3(1,2)] l rest]
    show ?case . }
  { case 4
    then obtain st1 where s1: "para_step chunkSize overlap di dn p st = Some st1"
      and l: "para_loop chunkSize overlap di dn ps st1 = Some st'"
      by (auto split: option.splits)
    from 4 have ne: "p \<noteq> []" and rest: "\<forall>p\<in>set ps. p \<noteq> []" by simp_all
    from Cons.IH(4) [OF 4(1) para_step_inv_pos [OF s1 ne 4(2)]
        para_step_inv_cov [OF s1 ne 4(1,2,3)] l rest]
    show ?case by (simp add: joined_def) }
qed

text \<open>The chunker only appends to the output array: what is already there is a prefix.\<close>

lemma para_step_prefix:
  "para_step chunkSize overlap di dn para (st\<lparr> chunks := pre @ chunks st \<rparr>) =
     map_option (\<lambda>s. s\<lparr> chunks := pre @ chunks s \<rparr>)
       (para_step chunkSize overlap di dn para st)"
  by (simp add: para_step_def Let_def split_loop_eq fold_push_window push_chunk_def)

lemma para_loop_prefix:
  "para_loop chunkSize overlap di dn ps (st\<lparr> chunks := pre @ chunks st \<rparr>) =
     map_option (\<lambda>s. s\<lparr> chunks := pre @ chunks s \<rparr>)
       (para_loop chunkSize overlap di dn ps st)"
proof (induction ps arbitrary: st)
  case Nil
  then show ?case by simp
next
  case (Cons p ps)
  show ?case
    by (cases "para_step chunkSize overlap di dn p st")
       (simp_all add: para_step_prefix Cons.IH)
qed

lemma chunk_doc_prefix:
  "chunk_doc chunkSize overlap (di, doc) (out, g) =
     map_option (\<lambda>(new, g'). (out @ new, g')) (chunk_doc chunkSize overlap (di, doc) ([], g))"
proof (cases "trim (text_d doc) = []")
  case True
  then show ?thesis by (simp add: chunk_doc_def)
next
  case False
  let ?st0 = "\<lparr> chunks = [], globalId = g, currentChunk = [], currentStart = 0, charPos = 0 \<rparr>"
  have "\<lparr> chunks = out, globalId = g, currentChunk = [], currentStart = 0, charPos = 0 \<rparr> =
        ?st0\<lparr> chunks := out @ chunks ?st0 \<rparr>" by simp
  then show ?thesis
    using para_loop_prefix [of chunkSize overlap di "name doc"
        "paragraphs_of (trim (text_d doc))" out ?st0] False
    by (cases "para_loop chunkSize overlap di (name doc) (paragraphs_of (trim (text_d doc))) ?st0")
       (simp_all add: chunk_doc_def Let_def push_chunk_def)
qed

lemma joined_join: "ps \<noteq> [] \<Longrightarrow> joined ps = join_paragraphs ps @ sep"
  by (induction ps rule: join_paragraphs.induct) (simp_all add: joined_def)

lemma inside_occurs_at:
  assumes "inside t s (joined ps)"
  shows "occurs_at t s (join_paragraphs ps)"
proof -
  from assms obtain pre post where Q: "joined ps = pre @ t @ post @ sep"
    and s: "int (length pre) = s" by (auto simp: inside_def)
  then have "ps \<noteq> []" by (auto simp: joined_def sep_def)
  from joined_join [OF this] Q have P: "join_paragraphs ps = pre @ t @ post" by simp
  have "nat s = length pre" using s by simp
  then show ?thesis unfolding occurs_at_def P using s by simp
qed

lemma paragraphs_of_nonempty_elems: "\<forall>p\<in>set (paragraphs_of t). p \<noteq> []"
  by (simp add: paragraphs_of_def)

lemma chunk_doc_Some:
  assumes "chunk_doc chunkSize overlap (di, doc) ([], g) = Some (new, g')"
    and "trim (text_d doc) \<noteq> []"
  obtains st where
    "para_loop chunkSize overlap di (name doc) (paragraphs_of (trim (text_d doc)))
       \<lparr> chunks = [], globalId = g, currentChunk = [], currentStart = 0, charPos = 0 \<rparr> = Some st"
    "new = chunks st @ flushed di (name doc) st"
    "g' = globalId st + length (flushed di (name doc) st)"
  using assms
  by (auto simp: chunk_doc_def Let_def flushed_def push_chunk_def split: if_splits)

lemma initial_invs:
  "inv_pos [] \<lparr> chunks = [], globalId = g, currentChunk = [], currentStart = 0, charPos = 0 \<rparr>"
  "inv_ids g di dn \<lparr> chunks = [], globalId = g, currentChunk = [], currentStart = 0, charPos = 0 \<rparr>"
  "inv_size chunkSize \<lparr> chunks = [], globalId = g, currentChunk = [], currentStart = 0, charPos = 0 \<rparr>"
  "inv_cov [] \<lparr> chunks = [], globalId = g, currentChunk = [], currentStart = 0, charPos = 0 \<rparr>"
  by (simp_all add: inv_pos_def inv_ids_def inv_size_def inv_cov_def)

lemma chunk_doc_props:
  assumes cd: "chunk_doc chunkSize overlap (di, doc) ([], g) = Some (new, g')"
  shows "g' = g + length new \<and>
      map id_c new = [g..<g + length new] \<and>
      (\<forall>c\<in>set new. docIndex c = di \<and> docName c = name doc \<and>
           occurs_at (text_c c) (startChar c) (doc_text doc)) \<and>
      sorted (map startChar new) \<and>
      (0 \<le> chunkSize \<longrightarrow> (\<forall>c\<in>set new. int (length (text_c c)) \<le> chunkSize)) \<and>
      (0 \<le> overlap \<longrightarrow>
           (\<forall>j<length (doc_text doc). doc_text doc ! j = CHR 0x0A \<or> (\<exists>c\<in>set new. covers c j)))"
proof (cases "trim (text_d doc) = []")
    case True
    with cd have "new = []" "g' = g" by (simp_all add: chunk_doc_def)
    moreover have "doc_text doc = []" by (simp add: doc_text_def True paragraphs_of_Nil)
    ultimately show "g' = g + length new \<and>
      map id_c new = [g..<g + length new] \<and>
      (\<forall>c\<in>set new. docIndex c = di \<and> docName c = name doc \<and>
           occurs_at (text_c c) (startChar c) (doc_text doc)) \<and>
      sorted (map startChar new) \<and>
      (0 \<le> chunkSize \<longrightarrow> (\<forall>c\<in>set new. int (length (text_c c)) \<le> chunkSize)) \<and>
      (0 \<le> overlap \<longrightarrow>
           (\<forall>j<length (doc_text doc). doc_text doc ! j = CHR 0x0A \<or> (\<exists>c\<in>set new. covers c j)))"
      by simp
  next
    case False
    from chunk_doc_Some [OF cd False] obtain st where
      loop: "para_loop chunkSize overlap di (name doc) (paragraphs_of (trim (text_d doc))) \<lparr> chunks = [], globalId = g, currentChunk = [], currentStart = 0, charPos = 0 \<rparr> = Some st"
      and new: "new = chunks st @ flushed di (name doc) st"
      and g': "g' = globalId st + length (flushed di (name doc) st)" by blast
    note ne = paragraphs_of_nonempty_elems [of "trim (text_d doc)"]
    note inv = para_loop_inv [OF loop ne]
    have pos: "inv_pos (joined (paragraphs_of (trim (text_d doc)))) st" using inv(1) [OF initial_invs(1)] by simp
    have ids: "inv_ids g di (name doc) st" by (rule inv(2) [OF initial_invs(2)])
    have P: "doc_text doc = join_paragraphs (paragraphs_of (trim (text_d doc)))" by (simp add: doc_text_def)
    have a: "g' = g + length new" using ids by (simp add: g' new inv_ids_def)
    have b: "map id_c new = [g..<g + length new]"
      using ids flushed_ids [of di "name doc" st] by (simp add: new inv_ids_def upt_split)
    have c: "\<forall>c\<in>set new. docIndex c = di \<and> docName c = name doc \<and>
           occurs_at (text_c c) (startChar c) (doc_text doc)"
    proof
      fix c assume "c \<in> set new"
      then consider "c \<in> set (chunks st)" | "c \<in> set (flushed di (name doc) st)" by (auto simp: new)
      then show "docIndex c = di \<and> docName c = name doc \<and>
           occurs_at (text_c c) (startChar c) (doc_text doc)"
      proof cases
        case 1
        with pos have "inside (text_c c) (startChar c) (joined (paragraphs_of (trim (text_d doc))))" by (simp add: inv_pos_def)
        from inside_occurs_at [OF this] 1 ids show ?thesis by (simp add: P inv_ids_def)
      next
        case 2
        from flushed_set [OF 2] have f: "currentChunk st \<noteq> []"
          "startChar c = currentStart st" "text_c c = currentChunk st"
          "docIndex c = di" "docName c = (name doc)" by simp_all
        from at_end_inside [OF inv_pos_buffer(1) [OF pos f(1)]]
        have "inside (text_c c) (startChar c) (joined (paragraphs_of (trim (text_d doc))))" by (simp add: f)
        from inside_occurs_at [OF this] f show ?thesis by (simp add: P)
      qed
    qed
    have d: "sorted (map startChar new)"
    proof -
      have "sorted (map startChar (chunks st))" using pos by (simp add: inv_pos_def)
      moreover have "sorted (map startChar (flushed di (name doc) st))" by (simp add: flushed_def)
      moreover have "\<forall>x\<in>set (chunks st). \<forall>y\<in>set (flushed di (name doc) st). startChar x \<le> startChar y"
        using pos by (auto simp: inv_pos_def front_def dest!: flushed_set)
      ultimately show ?thesis by (simp add: new sorted_append)
    qed
    have e: "0 \<le> chunkSize \<longrightarrow> (\<forall>c\<in>set new. int (length (text_c c)) \<le> chunkSize)"
    proof
      assume "0 \<le> chunkSize"
      from inv(3) [OF this initial_invs(3)]
      show "\<forall>c\<in>set new. int (length (text_c c)) \<le> chunkSize"
        by (auto simp: new inv_size_def dest!: flushed_set)
    qed
    have f: "0 \<le> overlap \<longrightarrow>
           (\<forall>j<length (doc_text doc). doc_text doc ! j = CHR 0x0A \<or> (\<exists>c\<in>set new. covers c j))"
    proof (intro impI allI)
      fix j assume ov: "0 \<le> overlap" and j: "j < length (doc_text doc)"
      then have psne: "(paragraphs_of (trim (text_d doc))) \<noteq> []" by (auto simp: P)
      have cov: "inv_cov (joined (paragraphs_of (trim (text_d doc)))) st"
        using inv(4) [OF ov initial_invs(1) initial_invs(4)] by simp
      have jq: "j < length (joined (paragraphs_of (trim (text_d doc))))" using j by (simp add: joined_join [OF psne] P)
      have q: "joined (paragraphs_of (trim (text_d doc))) ! j = doc_text doc ! j"
        using j by (simp add: joined_join [OF psne] P nth_append)
      from pos cov jq show "doc_text doc ! j = CHR 0x0A \<or> (\<exists>c\<in>set new. covers c j)"
      proof (cases rule: old_offset_cases)
        case lf
        then show ?thesis by (simp add: q)
      next
        case (chunk c)
        then show ?thesis by (auto simp: new)
      next
        case buf
        from flushed_covers [OF buf, of di "name doc"] show ?thesis by (auto simp: new)
      qed
    qed
    from a b c d e f show "g' = g + length new \<and>
      map id_c new = [g..<g + length new] \<and>
      (\<forall>c\<in>set new. docIndex c = di \<and> docName c = name doc \<and>
           occurs_at (text_c c) (startChar c) (doc_text doc)) \<and>
      sorted (map startChar new) \<and>
      (0 \<le> chunkSize \<longrightarrow> (\<forall>c\<in>set new. int (length (text_c c)) \<le> chunkSize)) \<and>
      (0 \<le> overlap \<longrightarrow>
           (\<forall>j<length (doc_text doc). doc_text doc ! j = CHR 0x0A \<or> (\<exists>c\<in>set new. covers c j)))"
      by blast
  qed

text \<open>The output of a call is the concatenation of the chunk lists of its documents.\<close>

lemma docs_loop_parts:
  "docs_loop chunkSize overlap (enumerate k docs) (out, g) = Some (out', g') \<Longrightarrow>
   \<exists>parts. length parts = length docs \<and> out' = out @ concat parts \<and>
     g' = g + length (concat parts) \<and>
     (\<forall>i<length docs.
        chunk_doc chunkSize overlap (k + i, docs ! i) ([], g + length (concat (take i parts))) =
          Some (parts ! i, g + length (concat (take (Suc i) parts))))"
proof (induction docs arbitrary: k out g)
  case Nil
  then show ?case by simp
next
  case (Cons d ds)
  from Cons.prems obtain out1 g1 where
    c1: "chunk_doc chunkSize overlap (k, d) (out, g) = Some (out1, g1)"
    and l: "docs_loop chunkSize overlap (enumerate (Suc k) ds) (out1, g1) = Some (out', g')"
    by (auto split: option.splits)
  from c1 obtain new1 where
    n1: "chunk_doc chunkSize overlap (k, d) ([], g) = Some (new1, g1)" and o1: "out1 = out @ new1"
    by (subst (asm) chunk_doc_prefix) auto
  from chunk_doc_props [OF n1] have g1: "g1 = g + length new1" by simp
  from Cons.IH [OF l] obtain parts where
    p: "length parts = length ds" "out' = out1 @ concat parts"
    "g' = g1 + length (concat parts)"
    "\<forall>i<length ds.
        chunk_doc chunkSize overlap (Suc k + i, ds ! i) ([], g1 + length (concat (take i parts))) =
          Some (parts ! i, g1 + length (concat (take (Suc i) parts)))"
    by blast
  have "\<forall>i<length (d # ds).
        chunk_doc chunkSize overlap (k + i, (d # ds) ! i)
          ([], g + length (concat (take i (new1 # parts)))) =
          Some ((new1 # parts) ! i, g + length (concat (take (Suc i) (new1 # parts))))"
  proof (intro allI impI)
    fix i assume i: "i < length (d # ds)"
    show "chunk_doc chunkSize overlap (k + i, (d # ds) ! i)
          ([], g + length (concat (take i (new1 # parts)))) =
          Some ((new1 # parts) ! i, g + length (concat (take (Suc i) (new1 # parts))))"
    proof (cases i)
      case 0
      then show ?thesis using n1 g1 by simp
    next
      case (Suc i')
      with i have "i' < length ds" by simp
      with p(4) show ?thesis by (simp add: Suc g1 add.assoc)
    qed
  qed
  then show ?case
    using p(1-3) o1 g1 by (intro exI [of _ "new1 # parts"]) simp
qed

lemma concat_ranges:
  "(\<forall>i<length parts. map f (parts ! i) =
      [g + length (concat (take i parts))..<g + length (concat (take (Suc i) parts))]) \<Longrightarrow>
   map f (concat parts) = [g..<g + length (concat parts)]"
proof (induction parts rule: rev_induct)
  case Nil
  then show ?case by simp
next
  case (snoc p parts)
  have "\<forall>i<length parts. map f (parts ! i) =
      [g + length (concat (take i parts))..<g + length (concat (take (Suc i) parts))]"
  proof (intro allI impI)
    fix i assume i: "i < length parts"
    with snoc.prems have "map f ((parts @ [p]) ! i) =
      [g + length (concat (take i (parts @ [p])))..<
       g + length (concat (take (Suc i) (parts @ [p])))]" by simp
    with i show "map f (parts ! i) =
      [g + length (concat (take i parts))..<g + length (concat (take (Suc i) parts))]"
      by (simp add: nth_append)
  qed
  from snoc.IH [OF this] have ih: "map f (concat parts) = [g..<g + length (concat parts)]" .
  from snoc.prems [rule_format, of "length parts"]
  have "map f ((parts @ [p]) ! length parts) =
      [g + length (concat (take (length parts) (parts @ [p])))..<
       g + length (concat (take (Suc (length parts)) (parts @ [p])))]" by simp
  then have "map f p = [g + length (concat parts)..<g + length (concat parts) + length p]"
    by (simp add: add.assoc)
  with ih show ?case by (simp add: upt_split)
qed

lemma filter_concat_index:
  "(\<forall>i<length parts. \<forall>c\<in>set (parts ! i). f c = i) \<Longrightarrow>
   filter (\<lambda>c. f c = d) (concat parts) = (if d < length parts then parts ! d else [])"
proof (induction parts rule: rev_induct)
  case Nil
  then show ?case by simp
next
  case (snoc p parts)
  have old: "\<forall>i<length parts. \<forall>c\<in>set (parts ! i). f c = i"
  proof (intro allI impI ballI)
    fix i c assume "i < length parts" "c \<in> set (parts ! i)"
    with snoc.prems [rule_format, of i c] show "f c = i" by (simp add: nth_append)
  qed
  have last: "\<forall>c\<in>set p. f c = length parts"
    using snoc.prems [rule_format, of "length parts"] by simp
  have fp: "filter (\<lambda>c. f c = d) p = (if d = length parts then p else [])"
    using last by (auto simp: filter_empty_conv filter_id_conv)
  show ?case
    using snoc.IH [OF old] fp by (auto simp: nth_append)
qed

lemma sorted_concat_index:
  "(\<forall>i<length parts. \<forall>c\<in>set (parts ! i). f c = i) \<Longrightarrow> sorted (map f (concat parts))"
proof (induction parts rule: rev_induct)
  case Nil
  then show ?case by simp
next
  case (snoc p parts)
  have old: "\<forall>i<length parts. \<forall>c\<in>set (parts ! i). f c = i"
  proof (intro allI impI ballI)
    fix i c assume "i < length parts" "c \<in> set (parts ! i)"
    with snoc.prems [rule_format, of i c] show "f c = i" by (simp add: nth_append)
  qed
  have last: "\<forall>c\<in>set p. f c = (length parts :: nat)"
    using snoc.prems [rule_format, of "length parts"] by simp
  have lt: "\<forall>x\<in>set (concat parts). f x < length parts"
  proof
    fix x assume "x \<in> set (concat parts)"
    then obtain ys where "ys \<in> set parts" "x \<in> set ys" by auto
    then obtain i where "i < length parts" "x \<in> set (parts ! i)"
      by (auto simp: in_set_conv_nth)
    with old show "f x < length parts" by auto
  qed
  have "sorted (map f p)"
    using last by (simp add: sorted_wrt_iff_nth_less)
  with snoc.IH [OF old] lt last show ?case
    by (fastforce simp: sorted_append)
qed

lemma chunk_doc_total:
  assumes "overlap < chunkSize"
  shows "\<exists>r. chunk_doc chunkSize overlap idoc out = Some r"
proof (cases idoc)
  case (Pair di doc)
  from para_loop_total [OF assms, of di "name doc" "paragraphs_of (trim (text_d doc))"
      "\<lparr> chunks = fst out, globalId = snd out, currentChunk = [], currentStart = 0, charPos = 0 \<rparr>"]
  show ?thesis by (auto simp: chunk_doc_def Let_def Pair)
qed

lemma docs_loop_total:
  assumes "overlap < chunkSize"
  shows "\<exists>r. docs_loop chunkSize overlap idocs out = Some r"
proof (induction idocs arbitrary: out)
  case Nil
  then show ?case by simp
next
  case (Cons idoc idocs)
  from chunk_doc_total [OF assms, of idoc out] obtain r where
    "chunk_doc chunkSize overlap idoc out = Some r" ..
  with Cons [of r] show ?case by simp
qed

lemma chunkDocuments_total:
  "overlap < chunkSize \<Longrightarrow> \<exists>cks. chunkDocuments docs chunkSize overlap = Some cks"
  using docs_loop_total [of overlap chunkSize "enumerate 0 docs" "([], 0)"]
  by (auto simp: chunkDocuments_def)

lemma chunkDocuments_parts:
  assumes "chunkDocuments docs chunkSize overlap = Some cks"
  obtains parts where "length parts = length docs" "cks = concat parts"
    "map id_c cks = [0..<length cks]"
    "\<And>i. i < length docs \<Longrightarrow> part_ok chunkSize overlap i (docs ! i) (parts ! i)"
proof -
  from assms obtain g' where
    "docs_loop chunkSize overlap (enumerate 0 docs) ([], 0) = Some (cks, g')"
    by (auto simp: chunkDocuments_def)
  from docs_loop_parts [OF this] obtain parts where
    p: "length parts = length docs" "cks = concat parts"
    and cd: "\<forall>i<length docs.
        chunk_doc chunkSize overlap (i, docs ! i) ([], length (concat (take i parts))) =
          Some (parts ! i, length (concat (take (Suc i) parts)))"
    by auto
  have ids: "map id_c cks = [0..<length cks]"
    unfolding p(2)
  proof (rule concat_ranges [where g = 0, simplified])
    show "\<forall>i<length parts. map id_c (parts ! i) =
        [length (concat (take i parts))..<length (concat (take (Suc i) parts))]"
    proof (intro allI impI)
      fix i assume "i < length parts"
      with cd p(1) have c: "chunk_doc chunkSize overlap (i, docs ! i)
          ([], length (concat (take i parts))) =
          Some (parts ! i, length (concat (take (Suc i) parts)))" by simp
      from chunk_doc_props [OF c]
      show "map id_c (parts ! i) =
        [length (concat (take i parts))..<length (concat (take (Suc i) parts))]" by simp
    qed
  qed
  have ok: "\<And>i. i < length docs \<Longrightarrow> part_ok chunkSize overlap i (docs ! i) (parts ! i)"
  proof -
    fix i assume "i < length docs"
    with cd have c: "chunk_doc chunkSize overlap (i, docs ! i)
          ([], length (concat (take i parts))) =
          Some (parts ! i, length (concat (take (Suc i) parts)))" by simp
    from chunk_doc_props [OF c] show "part_ok chunkSize overlap i (docs ! i) (parts ! i)"
      unfolding part_ok_def by blast
  qed
  from that [OF p ids ok] show thesis .
qed

text \<open>Trimming, splitting and joining drop and add white space only.\<close>

lemma filter_dropWhile:
  "(\<And>x. Q x \<Longrightarrow> P x) \<Longrightarrow> filter (\<lambda>x. \<not> P x) (dropWhile Q xs) = filter (\<lambda>x. \<not> P x) xs"
  by (induction xs) auto

lemma nonspace_trim: "filter (\<lambda>x. \<not> is_space x) (trim s) = filter (\<lambda>x. \<not> is_space x) s"
proof -
  have "filter (\<lambda>x. \<not> is_space x) (trim s) =
        rev (filter (\<lambda>x. \<not> is_space x) (dropWhile is_space (rev (dropWhile is_space s))))"
    by (simp add: trim_def rev_filter)
  also have "\<dots> = rev (filter (\<lambda>x. \<not> is_space x) (rev (dropWhile is_space s)))"
    by (simp add: filter_dropWhile)
  also have "\<dots> = filter (\<lambda>x. \<not> is_space x) (dropWhile is_space s)"
    by (simp add: rev_filter)
  also have "\<dots> = filter (\<lambda>x. \<not> is_space x) s"
    by (simp add: filter_dropWhile)
  finally show ?thesis .
qed

lemma LF_is_space: "is_space (CHR 0x0A)"
  by (simp add: is_space_def)

lemma nonspace_split_paragraphs:
  "filter (\<lambda>x. \<not> is_space x) (concat (split_paragraphs cur s)) =
   filter (\<lambda>x. \<not> is_space x) (cur @ s)"
proof (induction cur s rule: split_paragraphs.induct)
  case (1 cur)
  then show ?case by simp
next
  case (2 cur c)
  then show ?case by simp
next
  case (3 cur c d cs)
  show ?case
  proof (cases "c = CHR 0x0A \<and> d = CHR 0x0A")
    case True
    have "filter (\<lambda>x. \<not> is_space x) (dropWhile (\<lambda>x. x = CHR 0x0A) cs) =
          filter (\<lambda>x. \<not> is_space x) cs"
      by (rule filter_dropWhile) (simp add: LF_is_space)
    with 3(1) [OF True] True show ?thesis by (simp add: LF_is_space)
  next
    case False
    with 3(2) [OF False] show ?thesis by auto
  qed
qed

lemma nonspace_map_trim:
  "filter (\<lambda>x. \<not> is_space x) (concat (map trim xs)) = filter (\<lambda>x. \<not> is_space x) (concat xs)"
  by (induction xs) (simp_all add: nonspace_trim)

lemma concat_filter_nonempty: "concat (filter (\<lambda>p. p \<noteq> []) xs) = concat xs"
  by (induction xs) auto

lemma nonspace_join:
  "filter (\<lambda>x. \<not> is_space x) (join_paragraphs ps) = filter (\<lambda>x. \<not> is_space x) (concat ps)"
  by (induction ps rule: join_paragraphs.induct) (simp_all add: sep_def LF_is_space)

lemma nonspace_doc_text:
  "filter (\<lambda>x. \<not> is_space x) (doc_text doc) = filter (\<lambda>x. \<not> is_space x) (text_d doc)"
  by (simp add: doc_text_def nonspace_join paragraphs_of_def concat_filter_nonempty
      nonspace_map_trim nonspace_split_paragraphs [of "[]", simplified] nonspace_trim)

lemma occurs_at_nth:
  assumes "occurs_at t s P" "s \<le> int j" "int j < s + int (length t)"
  shows "t ! (j - nat s) = P ! j"
proof -
  from assms(1) have s: "0 \<le> s" and b: "nat s + length t \<le> length P"
    and t: "take (length t) (drop (nat s) P) = t" by (simp_all add: occurs_at_def)
  have k: "j - nat s < length t" "nat s \<le> j" using assms(2,3) s by linarith+
  have "t ! (j - nat s) = take (length t) (drop (nat s) P) ! (j - nat s)" by (simp only: t)
  also have "\<dots> = P ! j" using k b by simp
  finally show ?thesis .
qed

lemma parts_member:
  assumes "cks = concat parts" "c \<in> set cks"
  obtains i where "i < length parts" "c \<in> set (parts ! i)"
proof -
  from assms obtain ys where "ys \<in> set parts" "c \<in> set ys" by auto
  then show thesis using that by (auto simp: in_set_conv_nth)
qed

lemma parts_filter:
  assumes len: "length parts = length docs" and cks: "cks = concat parts"
    and ok: "\<And>i. i < length docs \<Longrightarrow> part_ok chunkSize overlap i (docs ! i) (parts ! i)"
  shows "filter (\<lambda>c. docIndex c = d) cks = (if d < length docs then parts ! d else [])"
    and "sorted (map docIndex cks)"
proof -
  have ix: "\<forall>i<length parts. \<forall>c\<in>set (parts ! i). docIndex c = i"
    using ok len by (auto simp: part_ok_def)
  show "filter (\<lambda>c. docIndex c = d) cks = (if d < length docs then parts ! d else [])"
    unfolding cks using filter_concat_index [OF ix, of d] len by simp
  show "sorted (map docIndex cks)"
    unfolding cks by (rule sorted_concat_index [OF ix])
qed

section \<open>Properties of the chunker\<close>

lemma ex_docs_chunks: "chunkDocuments ex_docs 4 1 = Some ex_out"
  by code_simp

lemma ex_doc_text: "doc_text (ex_docs ! 2) = ''xy'' @ [CHR 0x0A, CHR 0x0A] @ ''zw123456''"
  by code_simp

lemma chunkDocuments_parts_ex:
  assumes "chunkDocuments docs chunkSize overlap = Some cks"
  shows "\<exists>parts. length parts = length docs \<and> cks = concat parts \<and>
           map id_c cks = [0..<length cks] \<and>
           (\<forall>i<length docs. part_ok chunkSize overlap i (docs ! i) (parts ! i))"
  by (rule chunkDocuments_parts [OF assms]) blast

text \<open>
  Claim C4. For \<open>0 \<le> chunkSize\<close> and \<open>overlap < chunkSize\<close> the call returns, and
  every chunk it emits, from the paragraph buffer or from the fallback, has a text of at
  most \<open>chunkSize\<close> characters.
\<close>

theorem chunk_size_bound:
  assumes "0 \<le> chunkSize" and "overlap < chunkSize"
  shows "\<exists>cks. chunkDocuments docs chunkSize overlap = Some cks \<and>
           (\<forall>c\<in>set cks. int (length (text_c c)) \<le> chunkSize)"
proof -
  from chunkDocuments_total [OF assms(2)] obtain cks where
    r: "chunkDocuments docs chunkSize overlap = Some cks" ..
  from chunkDocuments_parts_ex [OF r]
  obtain parts where p: "length parts = length docs" "cks = concat parts"
    "\<And>i. i < length docs \<Longrightarrow> part_ok chunkSize overlap i (docs ! i) (parts ! i)"
    by blast
  have "\<forall>c\<in>set cks. int (length (text_c c)) \<le> chunkSize"
  proof
    fix c assume "c \<in> set cks"
    with p(2) obtain i where i: "i < length parts" "c \<in> set (parts ! i)"
      by (rule parts_member)
    with p(3) [of i] p(1) assms(1) show "int (length (text_c c)) \<le> chunkSize"
      by (simp add: part_ok_def)
  qed
  with r show ?thesis by blast
qed

text \<open>The theorem at the three example documents.\<close>

theorem chunk_size_bound_witness:
  "(0::int) \<le> 4 \<and> (1::int) < 4 \<and> chunkDocuments ex_docs 4 1 = Some ex_out \<and>
   ex_out ! 5 \<in> set ex_out \<and> int (length (text_c (ex_out ! 5))) \<le> 4"
proof -
  from chunk_size_bound [of 4 1 ex_docs]
  have "\<forall>c\<in>set ex_out. int (length (text_c c)) \<le> 4" by (simp add: ex_docs_chunks)
  moreover have "ex_out ! 5 \<in> set ex_out" by (simp add: ex_out_def)
  ultimately show ?thesis by (simp add: ex_docs_chunks)
qed

text \<open>
  Claim C5. For \<open>overlap < chunkSize\<close> (the default sizes 400 and 80 among them) the
  call returns a list of chunks. Whenever a call returns \<open>n\<close> chunks, their ids are
  \<open>0, \<dots>, n - 1\<close> in this order (the \<open>k\<close>-th chunk has id \<open>k\<close>, no id occurs twice);
  the chunks are in the order of their documents and, within a document, in the order of
  their offsets; the \<open>docIndex\<close> of a chunk is the index of a document of the input,
  \<open>docName\<close> is its name, and the text of the chunk is a part of the text of that one
  document, at the offset \<open>startChar\<close>.
\<close>

theorem chunk_ids_and_documents:
  "(overlap < chunkSize \<longrightarrow> (\<exists>cks. chunkDocuments docs chunkSize overlap = Some cks)) \<and>
   (\<forall>cks. chunkDocuments docs chunkSize overlap = Some cks \<longrightarrow>
     map id_c cks = [0..<length cks] \<and>
     (\<forall>k<length cks. id_c (cks ! k) = k) \<and>
     distinct (map id_c cks) \<and>
     sorted (map docIndex cks) \<and>
     (\<forall>d. sorted (map startChar (filter (\<lambda>c. docIndex c = d) cks))) \<and>
     (\<forall>c\<in>set cks. docIndex c < length docs \<and> docName c = name (docs ! docIndex c) \<and>
        occurs_at (text_c c) (startChar c) (doc_text (docs ! docIndex c))))"
proof (intro conjI allI impI)
  assume "overlap < chunkSize"
  then show "\<exists>cks. chunkDocuments docs chunkSize overlap = Some cks"
    by (rule chunkDocuments_total)
next
  fix cks assume r: "chunkDocuments docs chunkSize overlap = Some cks"
  from chunkDocuments_parts_ex [OF r]
  obtain parts where p: "length parts = length docs" "cks = concat parts"
    and ids: "map id_c cks = [0..<length cks]"
    and ok: "\<And>i. i < length docs \<Longrightarrow> part_ok chunkSize overlap i (docs ! i) (parts ! i)"
    by blast
  note pf = parts_filter [OF p ok]
  show "map id_c cks = [0..<length cks]" by (rule ids)
  show "sorted (map docIndex cks)" by (rule pf(2))
  show "distinct (map id_c cks)" by (simp only: ids) simp
  show "\<And>k. k < length cks \<Longrightarrow> id_c (cks ! k) = k"
  proof -
    fix k assume k: "k < length cks"
    then have "id_c (cks ! k) = map id_c cks ! k" by simp
    also have "\<dots> = k" using k by (simp only: ids) simp
    finally show "id_c (cks ! k) = k" .
  qed
  show "\<And>d. sorted (map startChar (filter (\<lambda>c. docIndex c = d) cks))"
    using ok by (simp add: pf(1) part_ok_def)
  show "\<forall>c\<in>set cks. docIndex c < length docs \<and> docName c = name (docs ! docIndex c) \<and>
        occurs_at (text_c c) (startChar c) (doc_text (docs ! docIndex c))"
  proof
    fix c assume "c \<in> set cks"
    with p(2) obtain i where i: "i < length parts" "c \<in> set (parts ! i)"
      by (rule parts_member)
    with ok [of i] p(1) show "docIndex c < length docs \<and> docName c = name (docs ! docIndex c) \<and>
        occurs_at (text_c c) (startChar c) (doc_text (docs ! docIndex c))"
      by (simp add: part_ok_def)
  qed
qed

text \<open>
  The theorem at the three example documents with \<open>chunkSize = 4\<close> and \<open>overlap = 1\<close>:
  the call returns the eight chunks of \<open>ex_out\<close>; the properties are shown at the chunk of
  id 5.
\<close>

theorem chunk_ids_and_documents_witness:
  "(1::int) < 4 \<and> chunkDocuments ex_docs 4 1 \<noteq> None \<and>
   chunkDocuments ex_docs 4 1 = Some ex_out \<and>
   map id_c ex_out = [0..<length ex_out] \<and>
   (5::nat) < length ex_out \<and> id_c (ex_out ! 5) = 5 \<and>
   sorted (map docIndex ex_out) \<and>
   ex_out ! 5 \<in> set ex_out \<and> docIndex (ex_out ! 5) < length ex_docs \<and>
   docName (ex_out ! 5) = name (ex_docs ! docIndex (ex_out ! 5)) \<and>
   occurs_at (text_c (ex_out ! 5)) (startChar (ex_out ! 5)) (doc_text (ex_docs ! docIndex (ex_out ! 5)))"
proof -
  note th = chunk_ids_and_documents [where overlap = 1 and chunkSize = 4 and docs = ex_docs]
  have m: "ex_out ! 5 \<in> set ex_out" and l: "5 < length ex_out" by (simp_all add: ex_out_def)
  from th have "\<exists>cks. chunkDocuments ex_docs 4 1 = Some cks" by simp
  then have ret: "chunkDocuments ex_docs 4 1 \<noteq> None" by auto
  from th ex_docs_chunks have "map id_c ex_out = [0..<length ex_out]" by blast
  moreover from th ex_docs_chunks l have "id_c (ex_out ! 5) = 5" by blast
  moreover from th ex_docs_chunks have "sorted (map docIndex ex_out)" by blast
  moreover from th ex_docs_chunks m have "docIndex (ex_out ! 5) < length ex_docs \<and>
       docName (ex_out ! 5) = name (ex_docs ! docIndex (ex_out ! 5)) \<and>
       occurs_at (text_c (ex_out ! 5)) (startChar (ex_out ! 5))
         (doc_text (ex_docs ! docIndex (ex_out ! 5)))" by blast
  ultimately show ?thesis using ex_docs_chunks m l ret by simp
qed

text \<open>
  Claim C6. For \<open>0 \<le> overlap < chunkSize\<close> the call returns and, for every document
  \<open>d\<close> of the input: the text of the document as the chunker sees it (its trimmed
  paragraphs joined by blank lines) has the characters of the document that are not white
  space, in the same order; every chunk of \<open>d\<close> is the part of that text at its offset
  \<open>startChar\<close>; the chunks of \<open>d\<close> are in the order of their offsets; and every character
  of that text that is not white space lies in a chunk of \<open>d\<close>, at its place.
\<close>

theorem chunk_coverage:
  assumes "0 \<le> overlap" and "overlap < chunkSize"
  shows "\<exists>cks. chunkDocuments docs chunkSize overlap = Some cks \<and>
     (\<forall>d<length docs.
        filter (\<lambda>x. \<not> is_space x) (doc_text (docs ! d)) =
          filter (\<lambda>x. \<not> is_space x) (text_d (docs ! d)) \<and>
        (\<forall>c\<in>set cks. docIndex c = d \<longrightarrow>
           occurs_at (text_c c) (startChar c) (doc_text (docs ! d))) \<and>
        sorted (map startChar (filter (\<lambda>c. docIndex c = d) cks)) \<and>
        (\<forall>j<length (doc_text (docs ! d)). \<not> is_space (doc_text (docs ! d) ! j) \<longrightarrow>
           (\<exists>c\<in>set cks. docIndex c = d \<and> covers c j \<and>
                text_c c ! (j - nat (startChar c)) = doc_text (docs ! d) ! j)))"
proof -
  from chunkDocuments_total [OF assms(2)] obtain cks where
    r: "chunkDocuments docs chunkSize overlap = Some cks" ..
  from chunkDocuments_parts_ex [OF r]
  obtain parts where p: "length parts = length docs" "cks = concat parts"
    and ok: "\<And>i. i < length docs \<Longrightarrow> part_ok chunkSize overlap i (docs ! i) (parts ! i)"
    by blast
  note pf = parts_filter [OF p ok]
  have "\<forall>d<length docs.
        filter (\<lambda>x. \<not> is_space x) (doc_text (docs ! d)) =
          filter (\<lambda>x. \<not> is_space x) (text_d (docs ! d)) \<and>
        (\<forall>c\<in>set cks. docIndex c = d \<longrightarrow>
           occurs_at (text_c c) (startChar c) (doc_text (docs ! d))) \<and>
        sorted (map startChar (filter (\<lambda>c. docIndex c = d) cks)) \<and>
        (\<forall>j<length (doc_text (docs ! d)). \<not> is_space (doc_text (docs ! d) ! j) \<longrightarrow>
           (\<exists>c\<in>set cks. docIndex c = d \<and> covers c j \<and>
                text_c c ! (j - nat (startChar c)) = doc_text (docs ! d) ! j))"
  proof (intro allI impI conjI ballI)
    fix d assume d: "d < length docs"
    show "filter (\<lambda>x. \<not> is_space x) (doc_text (docs ! d)) =
          filter (\<lambda>x. \<not> is_space x) (text_d (docs ! d))"
      by (rule nonspace_doc_text)
    show "sorted (map startChar (filter (\<lambda>c. docIndex c = d) cks))"
      using ok [OF d] d by (simp add: pf(1) part_ok_def)
  next
    fix d c assume d: "d < length docs" and c: "c \<in> set cks" "docIndex c = d"
    then have "c \<in> set (filter (\<lambda>c. docIndex c = d) cks)" by simp
    then have "c \<in> set (parts ! d)" using d by (simp only: pf(1)) simp
    with ok [OF d] show "occurs_at (text_c c) (startChar c) (doc_text (docs ! d))"
      by (simp add: part_ok_def)
  next
    fix d j assume d: "d < length docs" and j: "j < length (doc_text (docs ! d))"
      and ns: "\<not> is_space (doc_text (docs ! d) ! j)"
    from ns have "doc_text (docs ! d) ! j \<noteq> CHR 0x0A" using LF_is_space by auto
    with ok [OF d] assms(1) j obtain c where c: "c \<in> set (parts ! d)" "covers c j"
      by (auto simp: part_ok_def)
    from c(1) ok [OF d] have di: "docIndex c = d"
      and oc: "occurs_at (text_c c) (startChar c) (doc_text (docs ! d))"
      by (simp_all add: part_ok_def)
    have "c \<in> set (filter (\<lambda>c. docIndex c = d) cks)"
      using c(1) d by (simp only: pf(1)) simp
    then have mem: "c \<in> set cks" by simp
    have "text_c c ! (j - nat (startChar c)) = doc_text (docs ! d) ! j"
      using c(2) by (intro occurs_at_nth [OF oc]) (simp_all add: covers_def)
    with mem di c(2)
    show "\<exists>c\<in>set cks. docIndex c = d \<and> covers c j \<and>
                text_c c ! (j - nat (startChar c)) = doc_text (docs ! d) ! j"
      by blast
  qed
  with r show ?thesis by blast
qed

text \<open>The theorem at the third example document and offset 11 of its text.\<close>

theorem chunk_coverage_witness:
  "(0::int) \<le> 1 \<and> (1::int) < 4 \<and> chunkDocuments ex_docs 4 1 = Some ex_out \<and>
   (2::nat) < length ex_docs \<and>
   filter (\<lambda>x. \<not> is_space x) (doc_text (ex_docs ! 2)) =
     filter (\<lambda>x. \<not> is_space x) (text_d (ex_docs ! 2)) \<and>
   ex_out ! 5 \<in> set ex_out \<and> docIndex (ex_out ! 5) = 2 \<and>
   occurs_at (text_c (ex_out ! 5)) (startChar (ex_out ! 5)) (doc_text (ex_docs ! 2)) \<and>
   sorted (map startChar (filter (\<lambda>c. docIndex c = 2) ex_out)) \<and>
   (11::nat) < length (doc_text (ex_docs ! 2)) \<and> \<not> is_space (doc_text (ex_docs ! 2) ! 11) \<and>
   (\<exists>c\<in>set ex_out. docIndex c = 2 \<and> covers c 11 \<and>
       text_c c ! (11 - nat (startChar c)) = doc_text (ex_docs ! 2) ! 11)"
proof -
  from chunk_coverage [of 1 4 ex_docs]
  have th: "\<forall>d<length ex_docs.
        filter (\<lambda>x. \<not> is_space x) (doc_text (ex_docs ! d)) =
          filter (\<lambda>x. \<not> is_space x) (text_d (ex_docs ! d)) \<and>
        (\<forall>c\<in>set ex_out. docIndex c = d \<longrightarrow>
           occurs_at (text_c c) (startChar c) (doc_text (ex_docs ! d))) \<and>
        sorted (map startChar (filter (\<lambda>c. docIndex c = d) ex_out)) \<and>
        (\<forall>j<length (doc_text (ex_docs ! d)). \<not> is_space (doc_text (ex_docs ! d) ! j) \<longrightarrow>
           (\<exists>c\<in>set ex_out. docIndex c = d \<and> covers c j \<and>
                text_c c ! (j - nat (startChar c)) = doc_text (ex_docs ! d) ! j))"
    by (simp add: ex_docs_chunks)
  have l: "2 < length ex_docs" by (simp add: ex_docs_def)
  have m: "ex_out ! 5 \<in> set ex_out" "docIndex (ex_out ! 5) = 2" by (simp_all add: ex_out_def)
  have j: "11 < length (doc_text (ex_docs ! 2))" "\<not> is_space (doc_text (ex_docs ! 2) ! 11)"
    by (simp_all add: ex_doc_text is_space_def)
  from th l have a: "filter (\<lambda>x. \<not> is_space x) (doc_text (ex_docs ! 2)) =
     filter (\<lambda>x. \<not> is_space x) (text_d (ex_docs ! 2))" by blast
  from th l m have b: "occurs_at (text_c (ex_out ! 5)) (startChar (ex_out ! 5)) (doc_text (ex_docs ! 2))"
    by blast
  from th l have c: "sorted (map startChar (filter (\<lambda>c. docIndex c = 2) ex_out))" by blast
  from th l j have d: "\<exists>c\<in>set ex_out. docIndex c = 2 \<and> covers c 11 \<and>
       text_c c ! (11 - nat (startChar c)) = doc_text (ex_docs ! 2) ! 11" by blast
  from a b c d l m j ex_docs_chunks show ?thesis by simp
qed

section \<open>The search on the store\<close>

lemma those_map_Some: "those (map (\<lambda>x. Some (f x)) xs) = Some (map f xs)"
  by (induction xs) simp_all

lemma those_Some_nth:
  "those xs = Some ys \<Longrightarrow> length ys = length xs \<and> (\<forall>i<length xs. xs ! i = Some (ys ! i))"
proof (induction xs arbitrary: ys)
  case Nil
  then show ?case by simp
next
  case (Cons x xs)
  then obtain y ys' where x: "x = Some y" and t: "those xs = Some ys'" and ys: "ys = y # ys'"
    by (auto split: option.splits)
  from Cons.IH [OF t] show ?case by (auto simp: x ys nth_Cons')
qed

lemma sort_key_cong_set:
  "(\<And>x. x \<in> set xs \<Longrightarrow> f x = g x) \<Longrightarrow> sort_key f xs = sort_key g xs"
proof (induction xs)
  case Nil
  then show ?case by simp
next
  case (Cons x xs)
  have ins: "\<And>ys. set ys \<subseteq> set xs \<Longrightarrow> insort_key f x ys = insort_key g x ys"
  proof -
    fix ys show "set ys \<subseteq> set xs \<Longrightarrow> insort_key f x ys = insort_key g x ys"
      using Cons.prems by (induction ys) auto
  qed
  have "sort_key f xs = sort_key g xs" using Cons by simp
  moreover have "set (sort_key g xs) \<subseteq> set xs" by simp
  ultimately show ?case using ins by simp
qed

lemma map_insort_key:
  "map f (insort_key (\<lambda>x. g (f x)) x ys) = insort_key g (f x) (map f ys)"
  by (induction ys) simp_all

lemma map_sort_key: "map f (sort_key (\<lambda>x. g (f x)) xs) = sort_key g (map f xs)"
  by (induction xs) (simp_all add: map_insort_key)

lemma map_js_slice: "map f (js_slice xs s e) = js_slice (map f xs) s e"
  by (simp add: js_slice_def Let_def take_map drop_map)

lemma prefix_length: "take (length h) h' = h \<Longrightarrow> length h \<le> length h'"
  by (drule arg_cong [where f = length]) simp

lemma prefix_nth: "take (length h) h' = h \<Longrightarrow> a < length h \<Longrightarrow> h' ! a = h ! a"
  by (metis nth_take)

lemma get_chunk_prefix:
  "take (length h) h' = h \<Longrightarrow> get_chunk h r = Some c \<Longrightarrow> get_chunk h' r = Some c"
  using prefix_length [of h h'] prefix_nth [of h h' r]
  by (auto simp: get_chunk_def split: if_splits)

lemma get_array_prefix:
  "take (length h) h' = h \<Longrightarrow> get_array h a = Some rs \<Longrightarrow> get_array h' a = Some rs"
  using prefix_length [of h h'] prefix_nth [of h h' a]
  by (auto simp: get_array_def split: if_splits)

text \<open>What an array of chunks holds is the same in every store that extends the store.\<close>

lemma read_chunks_prefix:
  assumes p: "take (length h) h' = h" and r: "read_chunks h a = Some cs"
  shows "read_chunks h' a = Some cs"
proof -
  from r obtain rs where a: "get_array h a = Some rs"
    and t: "those (map (get_chunk h) rs) = Some cs"
    by (auto simp: read_chunks_def split: option.splits)
  from those_Some_nth [OF t] have "\<forall>i<length rs. get_chunk h (rs ! i) = Some (cs ! i)" by simp
  then have "\<forall>i<length rs. get_chunk h' (rs ! i) = get_chunk h (rs ! i)"
    using get_chunk_prefix [OF p] by simp
  then have m: "map (get_chunk h') rs = map (get_chunk h) rs"
    by (simp add: list_eq_iff_nth_eq)
  show ?thesis
    by (simp add: read_chunks_def get_array_prefix [OF p a] m t)
qed

text \<open>The store after a search, written out.\<close>

lemma bm25Search_heap_result:
  fixes h :: heap and q :: string and k :: int
  assumes r: "read_chunks h a = Some cs" and ne: "cs \<noteq> []"
  defines "S \<equiv> scored cs q"
  defines "n \<equiv> length h"
  defines "refs \<equiv> [n..<n + length S]"
  defines "h2 \<equiv> h @ map ScoredObj S @ [ArrayObj refs]"
  defines "refs2 \<equiv> filter (\<lambda>r. 0 < score_at h2 r) refs"
  defines "refs3 \<equiv> sort_key (\<lambda>r. - score_at (h2 @ [ArrayObj refs2]) r) refs2"
  shows "bm25Search_heap h a q k =
     Some (h2 @ [ArrayObj refs3, ArrayObj (js_slice refs3 0 k)], Suc (Suc (n + length S)))"
proof -
  have no: "new_objects (map ScoredObj S) h = (h @ map ScoredObj S, refs)"
    by (simp add: new_objects_def refs_def n_def)
  have na: "new_array refs (h @ map ScoredObj S) = (h2, n + length S)"
    by (simp add: new_array_def h2_def n_def)
  have ga: "get_array h2 (n + length S) = Some refs"
    by (simp add: get_array_def h2_def n_def nth_append)
  have af: "array_filter (\<lambda>h r. score_at h r > 0) (n + length S) h2 =
        Some (h2 @ [ArrayObj refs2], Suc (n + length S))"
    by (simp add: array_filter_def ga new_array_def refs2_def) (simp add: h2_def n_def)
  have ga2: "get_array (h2 @ [ArrayObj refs2]) (Suc (n + length S)) = Some refs2"
    by (simp add: get_array_def h2_def n_def nth_append)
  have "(h2 @ [ArrayObj refs2])[Suc (n + length S) := ArrayObj refs3] = h2 @ [ArrayObj refs3]"
    by (simp add: h2_def n_def list_update_append)
  then have as: "array_sort (\<lambda>h r. - score_at h r) (Suc (n + length S)) (h2 @ [ArrayObj refs2]) =
        Some (h2 @ [ArrayObj refs3], Suc (n + length S))"
    by (simp add: array_sort_def ga2 refs3_def)
  have ga3: "get_array (h2 @ [ArrayObj refs3]) (Suc (n + length S)) = Some refs3"
    by (simp add: get_array_def h2_def n_def nth_append)
  have sl: "array_slice 0 k (Suc (n + length S)) (h2 @ [ArrayObj refs3]) =
        Some (h2 @ [ArrayObj refs3, ArrayObj (js_slice refs3 0 k)], Suc (Suc (n + length S)))"
    by (simp add: array_slice_def ga3 new_array_def) (simp add: h2_def n_def)
  show ?thesis
    using ne by (simp add: bm25Search_heap_def r S_def [symmetric] no na af as sl)
qed

lemma get_scored_new:
  "length h \<le> x \<Longrightarrow> x < length h + length S \<Longrightarrow>
   get_scored (h @ map ScoredObj S @ ys) x = Some (S ! (x - length h))"
proof -
  assume a: "length h \<le> x" "x < length h + length S"
  then have "x - length h < length S" by linarith
  with a show ?thesis by (simp add: get_scored_def nth_append)
qed

lemma map_nth_shift: "map (\<lambda>x. S ! (x - n)) [n..<n + length S] = S"
proof -
  have "[n..<n + length S] = map (\<lambda>i. i + n) [0..<length S]"
    by (simp add: map_add_upt add.commute)
  then have "map (\<lambda>x. S ! (x - n)) [n..<n + length S] = map (\<lambda>i. S ! i) [0..<length S]"
    by (simp only: map_map comp_def) simp
  then show ?thesis by (simp only: map_nth)
qed

lemma truncate_fields:
  "chunk.truncate s = c \<Longrightarrow>
   id_c s = id_c c \<and> text_c s = text_c c \<and> docIndex s = docIndex c \<and>
   docName s = docName c \<and> startChar s = startChar c"
  by (auto simp: chunk.truncate_def)

lemma bm25Search_fields:
  assumes "s \<in> set (bm25Search cs q k)"
  shows "\<exists>i<length cs. s = scored cs q ! i \<and> chunk.truncate s = cs ! i \<and>
           id_c s = id_c (cs ! i) \<and> text_c s = text_c (cs ! i) \<and>
           docIndex s = docIndex (cs ! i) \<and> docName s = docName (cs ! i) \<and>
           startChar s = startChar (cs ! i)"
proof -
  from assms have "s \<in> set (scored cs q)" by (simp add: bm25Search_subset)
  then obtain i where i: "i < length cs" "s = scored cs q ! i"
    by (auto simp: in_set_conv_nth scored_length)
  then have t: "chunk.truncate s = cs ! i" by (simp add: scored_truncate)
  from truncate_fields [OF t] i t show ?thesis by blast
qed

lemma bm25Search_heap_values:
  fixes h :: heap and q :: string and k :: int
  assumes ne: "cs \<noteq> []"
  defines "S \<equiv> scored cs q"
  defines "n \<equiv> length h"
  defines "refs \<equiv> [n..<n + length S]"
  defines "h2 \<equiv> h @ map ScoredObj S @ [ArrayObj refs]"
  defines "refs2 \<equiv> filter (\<lambda>r. 0 < score_at h2 r) refs"
  defines "refs3 \<equiv> sort_key (\<lambda>r. - score_at (h2 @ [ArrayObj refs2]) r) refs2"
  defines "rs \<equiv> js_slice refs3 0 k"
  defines "h' \<equiv> h2 @ [ArrayObj refs3, ArrayObj rs]"
  shows "set rs \<subseteq> set refs"
    and "those (map (get_scored h') rs) = Some (bm25Search cs q k)"
proof -
  let ?f = "\<lambda>x. S ! (x - n)"
  have in_refs: "\<And>x. x \<in> set refs \<Longrightarrow> n \<le> x \<and> x < n + length S"
    by (simp add: refs_def)
  have sc2: "\<And>x. x \<in> set refs \<Longrightarrow> score_at h2 x = score (?f x)"
    using in_refs get_scored_new [of h _ S "[ArrayObj refs]"]
    by (simp add: score_at_def h2_def n_def)
  have sc3: "\<And>x. x \<in> set refs \<Longrightarrow> score_at (h2 @ [ArrayObj refs2]) x = score (?f x)"
    using in_refs get_scored_new [of h _ S "[ArrayObj refs, ArrayObj refs2]"]
    by (simp add: score_at_def h2_def n_def)
  have gs: "\<And>x. x \<in> set refs \<Longrightarrow> get_scored h' x = Some (?f x)"
    using in_refs get_scored_new [of h _ S "[ArrayObj refs, ArrayObj refs3, ArrayObj rs]"]
    by (simp add: h'_def h2_def n_def)
  have r2: "refs2 = filter (\<lambda>x. 0 < score (?f x)) refs"
    unfolding refs2_def by (rule filter_cong [OF refl]) (simp add: sc2)
  have sub2: "set refs2 \<subseteq> set refs" by (simp add: r2)
  have r3: "refs3 = sort_key (\<lambda>x. - score (?f x)) refs2"
    unfolding refs3_def by (rule sort_key_cong_set) (use sub2 sc3 in auto)
  have sub3: "set refs3 \<subseteq> set refs" using sub2 by (simp add: r3)
  show sub: "set rs \<subseteq> set refs"
    using sub3 set_js_slice [of refs3 0 k] by (auto simp: rs_def)
  have m1: "map ?f refs = S" unfolding refs_def by (rule map_nth_shift)
  have "filter (\<lambda>c. 0 < score c) (map ?f refs) =
        map ?f (filter ((\<lambda>c. 0 < score c) \<circ> ?f) refs)" by (rule filter_map)
  then have m2: "map ?f refs2 = filter (\<lambda>c. 0 < score c) S"
    by (simp only: m1 r2 comp_def)
  have m3: "map ?f refs3 = sort_desc (filter (\<lambda>c. 0 < score c) S)"
    unfolding r3 sort_desc_def
    using map_sort_key [of ?f "\<lambda>c. - score c" refs2] by (simp add: m2)
  have "map ?f rs = js_slice (sort_desc (filter (\<lambda>c. 0 < score c) S)) 0 k"
    by (simp only: rs_def map_js_slice m3)
  then have m4: "map ?f rs = bm25Search cs q k"
    using ne by (simp add: bm25Search_def S_def)
  have e: "map (get_scored h') rs = map (\<lambda>x. Some (?f x)) rs"
    by (rule map_cong [OF refl]) (use sub gs in auto)
  show "those (map (get_scored h') rs) = Some (bm25Search cs q k)"
    by (simp only: e those_map_Some m4)
qed

lemma ex_heap_chunks: "read_chunks ex_heap 2 = Some ex_chunks"
  by (simp add: read_chunks_def get_array_def get_chunk_def ex_heap_def ex_chunks_def)

text \<open>
  Claim C9. Let the input array, at address \<open>a\<close> of the store \<open>h\<close>, hold the chunks
  \<open>cs\<close>. The search returns a store \<open>h'\<close> and the address \<open>r\<close> of the result. Every
  object of \<open>h\<close> is unchanged in \<open>h'\<close>, so the input array still holds \<open>cs\<close>: the only
  write of the search, the sort, goes to an array that the search made. The result is a
  new array of new objects, whose values are those of the function \<open>bm25Search\<close>; each
  of them is entry \<open>i\<close> of \<open>scored\<close> for some chunk \<open>i\<close> and has the \<open>id\<close>, \<open>text\<close>,
  \<open>docIndex\<close>, \<open>docName\<close> and \<open>startChar\<close> of that chunk (its part without \<open>score\<close>
  and \<open>termMatches\<close> is the chunk).
\<close>

theorem bm25Search_frame:
  fixes h :: heap
  assumes "read_chunks h a = Some cs"
  shows "\<exists>h' r rs. bm25Search_heap h a q k = Some (h', r) \<and>
     take (length h) h' = h \<and> read_chunks h' a = Some cs \<and>
     length h \<le> r \<and> get_array h' r = Some rs \<and> (\<forall>x\<in>set rs. length h \<le> x) \<and>
     those (map (get_scored h') rs) = Some (bm25Search cs q k) \<and>
     (\<forall>s\<in>set (bm25Search cs q k).
        \<exists>i<length cs. s = scored cs q ! i \<and> chunk.truncate s = cs ! i \<and>
           id_c s = id_c (cs ! i) \<and> text_c s = text_c (cs ! i) \<and>
           docIndex s = docIndex (cs ! i) \<and> docName s = docName (cs ! i) \<and>
           startChar s = startChar (cs ! i))"
proof -
  have fields: "\<forall>s\<in>set (bm25Search cs q k).
        \<exists>i<length cs. s = scored cs q ! i \<and> chunk.truncate s = cs ! i \<and>
           id_c s = id_c (cs ! i) \<and> text_c s = text_c (cs ! i) \<and>
           docIndex s = docIndex (cs ! i) \<and> docName s = docName (cs ! i) \<and>
           startChar s = startChar (cs ! i)"
    using bm25Search_fields by blast
  show ?thesis
  proof (cases "cs = []")
    case True
    let ?h' = "h @ [ArrayObj []]"
    have res: "bm25Search_heap h a q k = Some (?h', length h)"
      by (simp add: bm25Search_heap_def assms True new_array_def)
    have p: "take (length h) ?h' = h" by simp
    have "get_array ?h' (length h) = Some []" by (simp add: get_array_def)
    moreover have "those (map (get_scored ?h') []) = Some (bm25Search cs q k)"
      by (simp add: True bm25Search_def)
    ultimately show ?thesis
      using res p read_chunks_prefix [OF p assms] fields
      by (intro exI [of _ ?h'] exI [of _ "length h"] exI [of _ "[]"]) simp
  next
    case False
    define S where "S = scored cs q"
    define refs where "refs = [length h..<length h + length S]"
    define h2 where "h2 = h @ map ScoredObj S @ [ArrayObj refs]"
    define refs2 where "refs2 = filter (\<lambda>r. 0 < score_at h2 r) refs"
    define refs3 where "refs3 = sort_key (\<lambda>r. - score_at (h2 @ [ArrayObj refs2]) r) refs2"
    define rs where "rs = js_slice refs3 0 k"
    define h' where "h' = h2 @ [ArrayObj refs3, ArrayObj rs]"
    define r where "r = Suc (Suc (length h + length S))"
    have res: "bm25Search_heap h a q k = Some (h', r)"
      using bm25Search_heap_result [OF assms False, of q k]
      by (simp add: h'_def r_def rs_def refs3_def refs2_def h2_def refs_def S_def)
    from bm25Search_heap_values [OF False, of h q k]
    have sub: "set rs \<subseteq> set refs"
      and val: "those (map (get_scored h') rs) = Some (bm25Search cs q k)"
      by (simp_all add: h'_def rs_def refs3_def refs2_def h2_def refs_def S_def)
    have p: "take (length h) h' = h" by (simp add: h'_def h2_def)
    have ga: "get_array h' r = Some rs"
      by (simp add: get_array_def h'_def h2_def r_def refs_def nth_append)
    have fresh: "\<forall>x\<in>set rs. length h \<le> x" using sub by (auto simp: refs_def)
    have "length h \<le> r" by (simp add: r_def)
    with res p read_chunks_prefix [OF p assms] ga fresh val fields
    show ?thesis by blast
  qed
qed

text \<open>The theorem at the example store and the query \<open>food\<close>.\<close>

theorem bm25Search_frame_witness:
  "read_chunks ex_heap 2 = Some ex_chunks \<and>
   (\<exists>h' r rs. bm25Search_heap ex_heap 2 ''food'' 5 = Some (h', r) \<and>
     take (length ex_heap) h' = ex_heap \<and> read_chunks h' 2 = Some ex_chunks \<and>
     length ex_heap \<le> r \<and> get_array h' r = Some rs \<and>
     those (map (get_scored h') rs) = Some (bm25Search ex_chunks ''food'' 5)) \<and>
   hd (bm25Search ex_chunks ''food'' 5) \<in> set (bm25Search ex_chunks ''food'' 5) \<and>
   (\<exists>i<length ex_chunks. chunk.truncate (hd (bm25Search ex_chunks ''food'' 5)) = ex_chunks ! i)"
proof -
  note th = bm25Search_frame [OF ex_heap_chunks, of "''food''" 5]
  from th have a: "\<exists>h' r rs. bm25Search_heap ex_heap 2 ''food'' 5 = Some (h', r) \<and>
     take (length ex_heap) h' = ex_heap \<and> read_chunks h' 2 = Some ex_chunks \<and>
     length ex_heap \<le> r \<and> get_array h' r = Some rs \<and>
     those (map (get_scored h') rs) = Some (bm25Search ex_chunks ''food'' 5)" by blast
  from th ex_search_mem
  have b: "\<exists>i<length ex_chunks. chunk.truncate (hd (bm25Search ex_chunks ''food'' 5)) = ex_chunks ! i"
    by blast
  from a b ex_heap_chunks ex_search_mem show ?thesis by blast
qed

end
